theory Spec2Isabelle
  imports Main "HOL-Library.Word"
begin

unbundle bit_operations_syntax

section \<open>BLAKE2s (sys/crypto/blake2s.c): data model\<close>

text \<open>
  Bytes are \<open>uint8_t\<close>, words are \<open>uint32_t\<close>. Memory regions (the buffer of the state,
  the parameter block, the message, the key) are byte lists; a pointer into a region is
  the region with its front dropped. A pointer that may be \<open>NULL\<close> is an \<open>option\<close>.
\<close>

type_synonym u8 = "8 word"
type_synonym u32 = "32 word"

text \<open>
  \<open>load32\<close> and \<open>store32\<close> are the pointer casts \<open>*(uint32_t *)src\<close> and
  \<open>*(uint32_t *)dst = w\<close>: they read and write the four bytes in the byte order of the
  machine that runs the code. The constant \<open>~0U\<close> that sets the finalisation flags has
  type \<open>unsigned int\<close>, whose width is the machine's, too (16 bits on the AVR and MSP430
  targets, 32 bits on the ARM ones). Byte order and width of \<open>unsigned int\<close> make up the
  host, which is a parameter of the whole embedding.
\<close>

datatype byte_order = LittleEndian | BigEndian

record host =
  endian :: byte_order
  uint_bits :: nat

datatype error = InvalidParameter

text \<open>
  Modelled from the spec: the constants of \<open>crypto/blake2s.h\<close>, which is not part of the
  sources (block size 64 bytes, maximal output 32 bytes, maximal key 32 bytes, salt and
  personalization 8 bytes each).
\<close>

abbreviation (input) BLAKE2S_BLOCKBYTES :: nat where "BLAKE2S_BLOCKBYTES \<equiv> 64"
abbreviation (input) BLAKE2S_OUTBYTES :: nat where "BLAKE2S_OUTBYTES \<equiv> 32"
abbreviation (input) BLAKE2S_KEYBYTES :: nat where "BLAKE2S_KEYBYTES \<equiv> 32"
abbreviation (input) BLAKE2S_SALTBYTES :: nat where "BLAKE2S_SALTBYTES \<equiv> 8"
abbreviation (input) BLAKE2S_PERSONALBYTES :: nat where "BLAKE2S_PERSONALBYTES \<equiv> 8"

definition blake2s_IV :: "u32 list" where
  "blake2s_IV = [0x6A09E667, 0xBB67AE85, 0x3C6EF372, 0xA54FF53A,
                 0x510E527F, 0x9B05688C, 0x1F83D9AB, 0x5BE0CD19]"

definition blake2s_sigma :: "nat list list" where
  "blake2s_sigma =
   [[ 0,  1,  2,  3,  4,  5,  6,  7,  8,  9, 10, 11, 12, 13, 14, 15],
    [14, 10,  4,  8,  9, 15, 13,  6,  1, 12,  0,  2, 11,  7,  5,  3],
    [11,  8, 12,  0,  5,  2, 15, 13, 10, 14,  3,  6,  7,  1,  9,  4],
    [ 7,  9,  3,  1, 13, 12, 11, 14,  2,  6,  5, 10,  4,  0, 15,  8],
    [ 9,  0,  5,  7,  2,  4, 10, 15, 14,  1, 11, 12,  6,  8,  3, 13],
    [ 2, 12,  6, 10,  0, 11,  8,  3,  4, 13,  7,  5, 15, 14,  1,  9],
    [12,  5,  1, 15, 14, 13,  4, 10,  0,  7,  6,  3,  9,  2,  8, 11],
    [13, 11,  7, 14, 12,  1,  3,  9,  5,  0, 15,  4,  8,  6,  2, 10],
    [ 6, 15, 14,  9, 11,  3,  0,  8, 12,  2, 13,  7,  1,  4, 10,  5],
    [10,  2,  8,  4,  7,  6,  1,  5, 15, 11,  9, 14,  3, 12, 13,  0]]"

subsection \<open>Memory primitives\<close>

text \<open>
  \<open>memcpy dst off src n\<close> is \<open>memcpy(dst + off, src, n)\<close> and \<open>memset dst off c n\<close> is
  \<open>memset(dst + off, c, n)\<close>; the result is the destination region afterwards. They
  describe the C calls when \<open>off + n \<le> length dst\<close> and \<open>n \<le> length src\<close>; outside that
  the C program reads or writes out of bounds and has no defined behaviour.
\<close>

definition memcpy :: "u8 list \<Rightarrow> nat \<Rightarrow> u8 list \<Rightarrow> nat \<Rightarrow> u8 list" where
  "memcpy dst off src n = take off dst @ take n src @ drop (off + n) dst"

definition memset :: "u8 list \<Rightarrow> nat \<Rightarrow> u8 \<Rightarrow> nat \<Rightarrow> u8 list" where
  "memset dst off c n = take off dst @ replicate n c @ drop (off + n) dst"

text \<open>The word whose bytes, least significant first, are the given ones.\<close>

fun le_word :: "u8 list \<Rightarrow> u32" where
  "le_word [] = 0"
| "le_word (b # bs) = ucast b + push_bit 8 (le_word bs)"

text \<open>
  A \<open>uint32_t\<close> object occupies four bytes: least significant byte at the lowest
  address on a little-endian machine, most significant byte there on a big-endian one.
\<close>

fun host_order :: "byte_order \<Rightarrow> u8 list \<Rightarrow> u8 list" where
  "host_order LittleEndian bs = bs"
| "host_order BigEndian bs = rev bs"

definition load32 :: "byte_order \<Rightarrow> u8 list \<Rightarrow> u32" where
  "load32 e src = le_word (host_order e (take 4 src))"

text \<open>\<open>store32 e w\<close> is the four bytes that the store leaves at \<open>dst\<close>.\<close>

definition store32 :: "byte_order \<Rightarrow> u32 \<Rightarrow> u8 list" where
  "store32 e w =
     host_order e [ucast w, ucast (drop_bit 8 w), ucast (drop_bit 16 w), ucast (drop_bit 24 w)]"

text \<open>\<open>store48\<close> writes byte by byte, lowest byte first, whatever the machine.\<close>

definition store48 :: "64 word \<Rightarrow> u8 list" where
  "store48 w =
     [ucast w, ucast (drop_bit 8 w), ucast (drop_bit 16 w), ucast (drop_bit 24 w),
      ucast (drop_bit 32 w), ucast (drop_bit 40 w)]"

definition rotr32 :: "u32 \<Rightarrow> nat \<Rightarrow> u32" where
  "rotr32 w c = drop_bit c w OR push_bit (32 - c) w"

definition secure_zero_memory :: "u8 list \<Rightarrow> nat \<Rightarrow> u8 list" where
  "secure_zero_memory v n = replicate n 0 @ drop n v"

subsection \<open>State and parameter block\<close>

text \<open>
  Modelled from the spec: the struct declarations of \<open>crypto/blake2s.h\<close>. The state has
  the fields the code uses: chaining words \<open>h[8]\<close>, counter \<open>t[2]\<close>, flags \<open>f[2]\<close>,
  the two-block buffer \<open>buf[128]\<close>, its fill count \<open>buflen\<close> (a \<open>size_t\<close>) and
  \<open>last_node\<close>. The parameter block is 32 bytes, fields in the order of the record;
  \<open>leaf_length\<close> is a four-byte word and \<open>node_offset\<close> six bytes, kept as their bytes.
\<close>

record blake2s_state =
  h :: "u32 list"
  t :: "u32 list"
  f :: "u32 list"
  buf :: "u8 list"
  buflen :: nat
  last_node :: u8

record blake2s_param =
  digest_length :: u8
  key_length :: u8
  fanout :: u8
  depth :: u8
  leaf_length :: "u8 list"
  node_offset :: "u8 list"
  node_depth :: u8
  inner_length :: u8
  salt :: "u8 list"
  personal :: "u8 list"

text \<open>
  Modelled from the spec: the memory layout of \<open>blake2s_param\<close> (declared in the header,
  packed, fields in this order). These are the 32 bytes that \<open>(uint32_t *)P\<close> reads.
\<close>

definition param_bytes :: "blake2s_param \<Rightarrow> u8 list" where
  "param_bytes P =
     [digest_length P, key_length P, fanout P, depth P] @ leaf_length P @ node_offset P @
     [node_depth P, inner_length P] @ salt P @ personal P"

text \<open>
  The states on which the C code stays within its arrays: all arrays have their declared
  sizes and \<open>buflen\<close> does not exceed the buffer.
\<close>

definition valid_state :: "blake2s_state \<Rightarrow> bool" where
  "valid_state S \<longleftrightarrow>
     length (h S) = 8 \<and> length (t S) = 2 \<and> length (f S) = 2 \<and>
     length (buf S) = 2 * BLAKE2S_BLOCKBYTES \<and> buflen S \<le> 2 * BLAKE2S_BLOCKBYTES"

section \<open>Operations\<close>

text \<open>
  \<open>not_0U e\<close> is what \<open>S->f[i] = ~0U\<close> stores. The operand \<open>0U\<close> is an \<open>unsigned int\<close>,
  so \<open>~0U\<close> is the \<open>unsigned int\<close> with all of its \<open>uint_bits\<close> bits set, \<open>2^n - 1\<close>; the
  assignment converts that value to \<open>uint32_t\<close>, that is modulo \<open>2^32\<close>. With 32 bits or
  more all 32 bits of the flag are set; with 16 bits the flag is \<open>0x0000FFFF\<close>.
\<close>

definition not_0U :: "host \<Rightarrow> u32" where
  "not_0U e = word_of_nat (2 ^ uint_bits e - 1)"

definition blake2s_set_lastnode :: "host \<Rightarrow> blake2s_state \<Rightarrow> blake2s_state" where
  "blake2s_set_lastnode e S = S\<lparr>f := (f S)[1 := not_0U e]\<rparr>"

definition blake2s_set_lastblock :: "host \<Rightarrow> blake2s_state \<Rightarrow> blake2s_state" where
  "blake2s_set_lastblock e S =
     (let S = (if last_node S \<noteq> 0 then blake2s_set_lastnode e S else S)
      in S\<lparr>f := (f S)[0 := not_0U e]\<rparr>)"

definition blake2s_increment_counter :: "blake2s_state \<Rightarrow> u32 \<Rightarrow> blake2s_state" where
  "blake2s_increment_counter S inc =
     (let S = S\<lparr>t := (t S)[0 := t S ! 0 + inc]\<rparr>
      in S\<lparr>t := (t S)[1 := t S ! 1 + (if t S ! 0 < inc then 1 else 0)]\<rparr>)"

text \<open>
  \<open>memset(S, 0, sizeof(blake2s_state))\<close>, then the IV into \<open>h\<close>. The initialisers only
  write the state they are given, so the model returns the state and takes none.
\<close>

definition blake2s_init0 :: blake2s_state where
  "blake2s_init0 =
     \<lparr>h = map (\<lambda>i. blake2s_IV ! i) [0..<8], t = [0, 0], f = [0, 0],
      buf = replicate (2 * BLAKE2S_BLOCKBYTES) 0, buflen = 0, last_node = 0\<rparr>"

definition blake2s_init_param :: "host \<Rightarrow> blake2s_param \<Rightarrow> blake2s_state" where
  "blake2s_init_param e P =
     (let S = blake2s_init0; p = param_bytes P
      in S\<lparr>h := map (\<lambda>i. h S ! i XOR load32 (endian e) (drop (4 * i) p)) [0..<8]\<rparr>)"

text \<open>The parameter block that \<open>blake2s_init\<close> and \<open>blake2s_init_key\<close> fill in.\<close>

definition sequential_param :: "host \<Rightarrow> u8 \<Rightarrow> u8 \<Rightarrow> blake2s_param" where
  "sequential_param e outlen keylen =
     \<lparr>digest_length = outlen, key_length = keylen, fanout = 1, depth = 1,
      leaf_length = store32 (endian e) 0, node_offset = store48 0,
      node_depth = 0, inner_length = 0,
      salt = replicate BLAKE2S_SALTBYTES 0, personal = replicate BLAKE2S_PERSONALBYTES 0\<rparr>"

definition blake2s_init :: "host \<Rightarrow> u8 \<Rightarrow> error + blake2s_state" where
  "blake2s_init e outlen =
     (if outlen = 0 \<or> unat outlen > BLAKE2S_OUTBYTES then Inl InvalidParameter
      else Inr (blake2s_init_param e (sequential_param e outlen 0)))"

subsection \<open>Compression\<close>

text \<open>
  Modelled from the spec: the macros \<open>G\<close> and \<open>BLAKE2S_ROUND\<close> of \<open>crypto/blake2s.h\<close>,
  which is not part of the sources. \<open>G\<close> mixes the working-vector words at positions
  \<open>a b c d\<close> with the two message words that row \<open>r\<close> of the permutation table selects,
  by additions, XORs and right rotations by 16, 12, 8 and 7; a round applies it to the
  four columns and then to the four diagonals.
\<close>

definition G :: "u32 list \<Rightarrow> nat \<Rightarrow> nat \<Rightarrow> nat \<Rightarrow> nat \<Rightarrow> nat \<Rightarrow> nat \<Rightarrow> u32 list \<Rightarrow> u32 list" where
  "G m r i a b c d v =
    (let a1 = v ! a + v ! b + m ! (blake2s_sigma ! r ! (2 * i + 0));
         d1 = rotr32 (v ! d XOR a1) 16;
         c1 = v ! c + d1;
         b1 = rotr32 (v ! b XOR c1) 12;
         a2 = a1 + b1 + m ! (blake2s_sigma ! r ! (2 * i + 1));
         d2 = rotr32 (d1 XOR a2) 8;
         c2 = c1 + d2;
         b2 = rotr32 (b1 XOR c2) 7
     in v[a := a2, b := b2, c := c2, d := d2])"

definition BLAKE2S_ROUND :: "u32 list \<Rightarrow> nat \<Rightarrow> u32 list \<Rightarrow> u32 list" where
  "BLAKE2S_ROUND m r v =
    (let v = G m r 0 0 4 8 12 v;
         v = G m r 1 1 5 9 13 v;
         v = G m r 2 2 6 10 14 v;
         v = G m r 3 3 7 11 15 v;
         v = G m r 4 0 5 10 15 v;
         v = G m r 5 1 6 11 12 v;
         v = G m r 6 2 7 8 13 v
     in G m r 7 3 4 9 14 v)"

definition blake2s_compress :: "host \<Rightarrow> blake2s_state \<Rightarrow> u8 list \<Rightarrow> blake2s_state" where
  "blake2s_compress e S block =
    (let m = map (\<lambda>i. load32 (endian e) (drop (i * 4) block)) [0..<16];
         v = map (\<lambda>i. h S ! i) [0..<8] @
             [blake2s_IV ! 0, blake2s_IV ! 1, blake2s_IV ! 2, blake2s_IV ! 3,
              t S ! 0 XOR blake2s_IV ! 4, t S ! 1 XOR blake2s_IV ! 5,
              f S ! 0 XOR blake2s_IV ! 6, f S ! 1 XOR blake2s_IV ! 7];
         v = fold (BLAKE2S_ROUND m) [0..<10] v
     in S\<lparr>h := map (\<lambda>i. h S ! i XOR v ! i XOR v ! (i + 8)) [0..<8]\<rparr>)"

subsection \<open>Update, finalisation, one-shot hash\<close>

text \<open>
  \<open>blake2s_update e S inp\<close>: the message \<open>inp\<close> is the list of the \<open>inlen\<close> bytes at the
  pointer \<open>in\<close>; \<open>in += n; inlen -= n\<close> is \<open>drop n\<close>. The measure of the loop is the
  number of bytes left, then \<open>buflen\<close> (a round entered with a full buffer consumes no
  input). On a valid state \<open>buflen\<close> is at most 128 and \<open>fill\<close> is the free space; with a
  larger \<open>buflen\<close> the \<open>size_t\<close> subtraction of the C code wraps around and its \<open>memcpy\<close>
  leaves the buffer, which the model does not describe.
\<close>

function blake2s_update :: "host \<Rightarrow> blake2s_state \<Rightarrow> u8 list \<Rightarrow> blake2s_state" where
  "blake2s_update e S inp =
    (if length inp > 0 then
       (let left = buflen S; fill = 2 * BLAKE2S_BLOCKBYTES - left in
        if length inp > fill then
          (let S = S\<lparr>buf := memcpy (buf S) left inp fill\<rparr>;
               S = S\<lparr>buflen := buflen S + fill\<rparr>;
               S = blake2s_increment_counter S (word_of_nat BLAKE2S_BLOCKBYTES);
               S = blake2s_compress e S (buf S);
               S = S\<lparr>buf := memcpy (buf S) 0 (drop BLAKE2S_BLOCKBYTES (buf S)) BLAKE2S_BLOCKBYTES\<rparr>;
               S = S\<lparr>buflen := buflen S - BLAKE2S_BLOCKBYTES\<rparr>
           in blake2s_update e S (drop fill inp))
        else
          (let S = S\<lparr>buf := memcpy (buf S) left inp (length inp)\<rparr>;
               S = S\<lparr>buflen := buflen S + length inp\<rparr>
           in blake2s_update e S (drop (length inp) inp)))
     else S)"
  by pat_completeness auto

termination blake2s_update
  apply (relation "measure (\<lambda>(e, S, inp). 129 * length inp + buflen S)")
    apply simp
   apply (simp add: blake2s_increment_counter_def blake2s_compress_def Let_def)
  apply simp
  done

declare blake2s_update.simps [simp del]

text \<open>
  \<open>blake2s_init_key e outlen key keylen\<close>: \<open>key\<close> is \<open>None\<close> for a \<open>NULL\<close> pointer, else
  the bytes at the pointer (at least \<open>keylen\<close> of them, or the C code reads out of
  bounds). \<open>blake2s_init_param\<close> always returns 0, so its error branch is never taken.
  The local \<open>block\<close> is zeroed after use and then goes out of scope.
\<close>

definition blake2s_init_key ::
  "host \<Rightarrow> u8 \<Rightarrow> u8 list option \<Rightarrow> u8 \<Rightarrow> error + blake2s_state" where
  "blake2s_init_key e outlen key keylen =
     (if outlen = 0 \<or> unat outlen > BLAKE2S_OUTBYTES then Inl InvalidParameter
      else if key = None \<or> keylen = 0 \<or> unat keylen > BLAKE2S_KEYBYTES then Inl InvalidParameter
      else
        (let S = blake2s_init_param e (sequential_param e outlen keylen);
             block = replicate BLAKE2S_BLOCKBYTES 0;
             block = memcpy block 0 (the key) (unat keylen);
             S = blake2s_update e S block;
             block = secure_zero_memory block BLAKE2S_BLOCKBYTES
         in Inr S))"

text \<open>
  \<open>blake2s_final e S outlen\<close> returns the state it leaves and the \<open>outlen\<close> bytes that
  \<open>memcpy(out, buffer, outlen)\<close> writes to \<open>out\<close> (for \<open>outlen > 32\<close> the C code reads
  past \<open>buffer\<close>).
\<close>

definition blake2s_final :: "host \<Rightarrow> blake2s_state \<Rightarrow> u8 \<Rightarrow> blake2s_state \<times> u8 list" where
  "blake2s_final e S outlen =
    (let S = (if buflen S > BLAKE2S_BLOCKBYTES then
                (let S = blake2s_increment_counter S (word_of_nat BLAKE2S_BLOCKBYTES);
                     S = blake2s_compress e S (buf S);
                     S = S\<lparr>buflen := buflen S - BLAKE2S_BLOCKBYTES\<rparr>
                 in S\<lparr>buf := memcpy (buf S) 0 (drop BLAKE2S_BLOCKBYTES (buf S)) (buflen S)\<rparr>)
              else S);
         S = blake2s_increment_counter S (word_of_nat (buflen S));
         S = blake2s_set_lastblock e S;
         S = S\<lparr>buf := memset (buf S) (buflen S) 0 (2 * BLAKE2S_BLOCKBYTES - buflen S)\<rparr>;
         S = blake2s_compress e S (buf S);
         buffer = concat (map (\<lambda>i. store32 (endian e) (h S ! i)) [0..<8])
     in (S, take (unat outlen) buffer))"

text \<open>
  \<open>blake2s e out inp key outlen keylen\<close>: \<open>out\<close>, \<open>inp\<close> and \<open>key\<close> are \<open>None\<close> for
  \<open>NULL\<close>; \<open>inlen\<close> is the length of \<open>inp\<close>. The result is the error, or the bytes
  written to \<open>out\<close>.
\<close>

definition blake2s ::
  "host \<Rightarrow> u8 list option \<Rightarrow> u8 list option \<Rightarrow> u8 list option \<Rightarrow> u8 \<Rightarrow> u8 \<Rightarrow>
   error + u8 list" where
  "blake2s e out inp key outlen keylen =
     (if inp = None then Inl InvalidParameter
      else if out = None then Inl InvalidParameter
      else
        (let keylen = (if key = None then 0 else keylen);
             r = (if keylen > 0 then blake2s_init_key e outlen key keylen
                  else blake2s_init e outlen)
         in case r of
              Inl err \<Rightarrow> Inl err
            | Inr S \<Rightarrow>
                (let S = blake2s_update e S (the inp)
                 in Inr (snd (blake2s_final e S outlen)))))"

section \<open>Auxiliary definitions\<close>

text \<open>
  Three hosts: little-endian and big-endian ones with a 32-bit \<open>unsigned int\<close>, and a
  little-endian one with a 16-bit \<open>unsigned int\<close>.
\<close>

definition le32_host :: host where
  "le32_host = \<lparr>endian = LittleEndian, uint_bits = 32\<rparr>"

definition be32_host :: host where
  "be32_host = \<lparr>endian = BigEndian, uint_bits = 32\<rparr>"

definition le16_host :: host where
  "le16_host = \<lparr>endian = LittleEndian, uint_bits = 16\<rparr>"

text \<open>The 64-bit value of the split counter \<open>t[1]:t[0]\<close>.\<close>

definition counter64 :: "blake2s_state \<Rightarrow> nat" where
  "counter64 S = unat (t S ! 1) * 2 ^ 32 + unat (t S ! 0)"

text \<open>Lower-case hexadecimal rendering of a digest, as digests are published.\<close>

definition hex_digit :: "nat \<Rightarrow> char" where
  "hex_digit n = ''0123456789abcdef'' ! n"

definition hex_of :: "u8 list \<Rightarrow> string" where
  "hex_of bs = concat (map (\<lambda>b. [hex_digit (unat b div 16), hex_digit (unat b mod 16)]) bs)"

text \<open>The unkeyed one-shot hash with 32-byte output, in hexadecimal.\<close>

definition blake2s_hex :: "host \<Rightarrow> u8 list \<Rightarrow> string option" where
  "blake2s_hex e inp =
     (case blake2s e (Some (replicate BLAKE2S_OUTBYTES 0)) (Some inp) None 32 0 of
        Inl err \<Rightarrow> None
      | Inr d \<Rightarrow> Some (hex_of d))"

text \<open>
  The loop body of \<open>blake2s_update\<close> in pieces: \<open>fill_buffer\<close> copies input until the
  buffer is full, \<open>compress_shift\<close> counts and compresses the first block and moves the
  second one to the front (together the branch \<open>inlen > fill\<close>, \<open>update_block\<close>);
  \<open>update_append\<close> is the branch \<open>inlen <= fill\<close>.
\<close>

definition fill_buffer :: "blake2s_state \<Rightarrow> u8 list \<Rightarrow> blake2s_state" where
  "fill_buffer S inp =
     (let left = buflen S; fill = 2 * BLAKE2S_BLOCKBYTES - left;
          S = S\<lparr>buf := memcpy (buf S) left inp fill\<rparr>
      in S\<lparr>buflen := buflen S + fill\<rparr>)"

definition compress_shift :: "host \<Rightarrow> blake2s_state \<Rightarrow> blake2s_state" where
  "compress_shift e S =
     (let S = blake2s_increment_counter S (word_of_nat BLAKE2S_BLOCKBYTES);
          S = blake2s_compress e S (buf S);
          S = S\<lparr>buf := memcpy (buf S) 0 (drop BLAKE2S_BLOCKBYTES (buf S)) BLAKE2S_BLOCKBYTES\<rparr>
      in S\<lparr>buflen := buflen S - BLAKE2S_BLOCKBYTES\<rparr>)"

definition update_block :: "host \<Rightarrow> blake2s_state \<Rightarrow> u8 list \<Rightarrow> blake2s_state" where
  "update_block e S inp = compress_shift e (fill_buffer S inp)"

definition update_append :: "blake2s_state \<Rightarrow> u8 list \<Rightarrow> blake2s_state" where
  "update_append S inp =
     (let S = S\<lparr>buf := memcpy (buf S) (buflen S) inp (length inp)\<rparr>
      in S\<lparr>buflen := buflen S + length inp\<rparr>)"

text \<open>
  \<open>blake2s_update\<close> and \<open>blake2s_final\<close> once more, now also returning the log of
  their calls of \<open>blake2s_compress\<close>: for each call the state that is passed and the
  memory at the block pointer that is passed.
\<close>

type_synonym compress_call = "blake2s_state \<times> u8 list"

function blake2s_update_calls ::
  "host \<Rightarrow> blake2s_state \<Rightarrow> u8 list \<Rightarrow> blake2s_state \<times> compress_call list" where
  "blake2s_update_calls e S inp =
    (if length inp > 0 then
       (let left = buflen S; fill = 2 * BLAKE2S_BLOCKBYTES - left in
        if length inp > fill then
          (let S = S\<lparr>buf := memcpy (buf S) left inp fill\<rparr>;
               S = S\<lparr>buflen := buflen S + fill\<rparr>;
               S = blake2s_increment_counter S (word_of_nat BLAKE2S_BLOCKBYTES);
               call = (S, buf S);
               S = blake2s_compress e S (buf S);
               S = S\<lparr>buf := memcpy (buf S) 0 (drop BLAKE2S_BLOCKBYTES (buf S)) BLAKE2S_BLOCKBYTES\<rparr>;
               S = S\<lparr>buflen := buflen S - BLAKE2S_BLOCKBYTES\<rparr>;
               r = blake2s_update_calls e S (drop fill inp)
           in (fst r, call # snd r))
        else
          (let S = S\<lparr>buf := memcpy (buf S) left inp (length inp)\<rparr>;
               S = S\<lparr>buflen := buflen S + length inp\<rparr>
           in blake2s_update_calls e S (drop (length inp) inp)))
     else (S, []))"
  by pat_completeness auto
termination
  apply (relation "measure (\<lambda>(e, S, inp). 129 * length inp + buflen S)")
    apply simp
   apply (simp add: blake2s_increment_counter_def blake2s_compress_def Let_def)
  apply simp
  done

declare blake2s_update_calls.simps [simp del]

definition blake2s_final_calls ::
  "host \<Rightarrow> blake2s_state \<Rightarrow> u8 \<Rightarrow> (blake2s_state \<times> u8 list) \<times> compress_call list" where
  "blake2s_final_calls e S outlen =
    (let calls = [];
         (S, calls) =
           (if buflen S > BLAKE2S_BLOCKBYTES then
              (let S = blake2s_increment_counter S (word_of_nat BLAKE2S_BLOCKBYTES);
                   calls = calls @ [(S, buf S)];
                   S = blake2s_compress e S (buf S);
                   S = S\<lparr>buflen := buflen S - BLAKE2S_BLOCKBYTES\<rparr>
               in (S\<lparr>buf := memcpy (buf S) 0 (drop BLAKE2S_BLOCKBYTES (buf S)) (buflen S)\<rparr>, calls))
            else (S, calls));
         S = blake2s_increment_counter S (word_of_nat (buflen S));
         S = blake2s_set_lastblock e S;
         S = S\<lparr>buf := memset (buf S) (buflen S) 0 (2 * BLAKE2S_BLOCKBYTES - buflen S)\<rparr>;
         calls = calls @ [(S, buf S)];
         S = blake2s_compress e S (buf S);
         buffer = concat (map (\<lambda>i. store32 (endian e) (h S ! i)) [0..<8])
     in ((S, take (unat outlen) buffer), calls))"

text \<open>
  For evaluation inside the logic: \<open>W n\<close> is the word with value \<open>n mod 2^32\<close>, kept
  apart from numerals so that each word operation is one arithmetic step on \<open>nat\<close>;
  \<open>Gmix\<close> is the body of \<open>G\<close> on the four selected words.
\<close>

definition W :: "nat \<Rightarrow> u32" where
  "W n = word_of_nat n"

definition red32 :: "nat \<Rightarrow> nat" where
  "red32 s = s mod 2 ^ 32"

definition rot32 :: "nat \<Rightarrow> nat \<Rightarrow> nat" where
  "rot32 c a =
     (let x = red32 a in drop_bit c x + (push_bit (32 - c) x - push_bit 32 (drop_bit c x)))"

definition Gmix :: "u32 \<Rightarrow> u32 \<Rightarrow> u32 \<Rightarrow> u32 \<Rightarrow> u32 \<Rightarrow> u32 \<Rightarrow> u32 list" where
  "Gmix a b c d x y =
    (let a1 = a + b + x;
         d1 = rotr32 (d XOR a1) 16;
         c1 = c + d1;
         b1 = rotr32 (b XOR c1) 12;
         a2 = a1 + b1 + y;
         d2 = rotr32 (d1 XOR a2) 8;
         c2 = c1 + d2;
         b2 = rotr32 (b1 XOR c2) 7
     in [a2, b2, c2, d2])"

section \<open>Evaluation inside the logic\<close>

lemma red32_take_bit: "red32 a = take_bit 32 a"
  by (simp add: red32_def take_bit_eq_mod)

lemma red32_eval:
  "red32 s = (if s < 4294967296 then s
              else if s < 8589934592 then s - 4294967296 else s mod 4294967296)"
  unfolding red32_def
  by (simp add: mod_if [of s 4294967296] mod_if [of "s - 4294967296" 4294967296] le_mod_geq)

lemma W_red32: "W (red32 n) = W n"
  by (simp add: W_def red32_def word_of_nat_eq_iff take_bit_eq_mod)

lemma unat_W: "unat (W n) = red32 n"
  by (simp add: W_def red32_def unat_of_nat)

lemma W_numeral: "(numeral k :: u32) = W (numeral k)"
  by (simp add: W_def)

lemma W_0: "(0 :: u32) = W 0"
  by (simp add: W_def)

lemma W_1: "(1 :: u32) = W 1"
  by (simp add: W_def)

lemma W_of_nat: "(word_of_nat n :: u32) = W n"
  by (simp add: W_def)

lemma W_add: "W a + W b = W (red32 (a + b))"
  by (simp add: W_red32) (simp add: W_def)

lemma W_xor: "W a XOR W b = W (a XOR b)"
  by (simp add: W_def of_nat_xor_eq)

lemma W_less: "W a < W b \<longleftrightarrow> red32 a < red32 b"
  by (simp add: word_less_nat_alt unat_W)

lemma W_eq: "W a = W b \<longleftrightarrow> red32 a = red32 b"
  by (metis unat_W W_red32)

lemma rot32_or:
  assumes "c \<le> 32"
  shows "rot32 c a = drop_bit c (take_bit 32 a) OR push_bit (32 - c) (take_bit c (take_bit 32 a))"
proof -
  define x where "x = take_bit 32 a"
  have p: "(2::nat) ^ 32 = 2 ^ c * 2 ^ (32 - c)"
    using assms by (simp flip: power_add)
  have "push_bit (32 - c) x - push_bit 32 (drop_bit c x) = (x - x div 2 ^ c * 2 ^ c) * 2 ^ (32 - c)"
    unfolding push_bit_eq_mult drop_bit_eq_div p by (simp add: diff_mult_distrib mult.assoc)
  also have "\<dots> = push_bit (32 - c) (take_bit c x)"
    by (simp add: minus_div_mult_eq_mod push_bit_eq_mult take_bit_eq_mod)
  finally have s1: "push_bit (32 - c) x - push_bit 32 (drop_bit c x) = push_bit (32 - c) (take_bit c x)" .
  have s2: "drop_bit c x + push_bit (32 - c) (take_bit c x) = drop_bit c x OR push_bit (32 - c) (take_bit c x)"
    by (rule disjunctive_add) (auto simp add: bit_simps x_def)
  show ?thesis
    using s1 s2 by (simp add: rot32_def red32_def Let_def x_def take_bit_eq_mod)
qed

lemma W_rotr: "c \<le> 32 \<Longrightarrow> rotr32 (W a) c = W (rot32 c a)"
  apply (simp add: rot32_or)
  apply (rule bit_word_eqI)
  apply (auto simp add: rotr32_def W_def bit_simps)
  done

lemma W_not: "NOT (W a) = W (4294967295 - red32 a)"
proof -
  have "red32 a < 4294967296" by (simp add: red32_def)
  then have "W (4294967295 - red32 a) + W (red32 a) = - 1"
    by (simp add: W_def flip: of_nat_add)
  then have "W (4294967295 - red32 a) = - 1 - W a"
    by (simp add: W_red32 algebra_simps)
  then show ?thesis by (simp add: not_eq_complement)
qed

lemma W_drop_bit: "drop_bit k (W a) = W (drop_bit k (red32 a))"
  apply (rule bit_word_eqI)
  apply (auto simp add: W_def red32_take_bit bit_simps)
  done

lemma W_push_bit: "push_bit k (W a) = W (push_bit k a)"
  by (simp add: W_def push_bit_of_nat)

lemma W_ucast8: "(ucast (W a) :: u8) = word_of_nat (take_bit 8 a)"
  apply (rule bit_word_eqI)
  apply (auto simp add: W_def bit_simps)
  done

lemma ucast8_W: "(ucast (b :: u8) :: u32) = W (unat b)"
  by (simp add: W_def)

lemma not_0U_all_ones: "32 \<le> uint_bits e \<Longrightarrow> not_0U e = NOT 0"
proof -
  assume "32 \<le> uint_bits e"
  then have "(2 :: u32) ^ uint_bits e = 0"
    by (simp add: exp_eq_zero_iff)
  moreover have "(word_of_nat (2 ^ uint_bits e - 1) :: u32) = 2 ^ uint_bits e - 1"
    by (simp add: of_nat_diff)
  ultimately show ?thesis
    by (simp add: not_0U_def)
qed

lemma not_0U_W: "32 \<le> uint_bits e \<Longrightarrow> not_0U e = W 4294967295"
  by (simp add: not_0U_all_ones W_def)

lemma not_0U_16: "uint_bits e = 16 \<Longrightarrow> not_0U e = W 65535"
  by (simp add: not_0U_def W_def)

lemma hosts [simp]:
  "endian le32_host = LittleEndian" "uint_bits le32_host = 32"
  "endian be32_host = BigEndian" "uint_bits be32_host = 32"
  "endian le16_host = LittleEndian" "uint_bits le16_host = 16"
  by (simp_all add: le32_host_def be32_host_def le16_host_def)

lemma Let_W: "Let (W a) g = g (W a)"
  by simp

lemma Let_Cons: "Let (x # xs) g = g (x # xs)"
  by simp

lemma Let_Nil: "Let [] g = g []"
  by simp

lemma list_update_Cons_numeral: "(x # xs)[numeral k := y] = x # xs[pred_numeral k := y]"
  by (simp add: numeral_eq_Suc)

lemma replicate_numeral_Cons: "replicate (numeral k) x = x # replicate (pred_numeral k) x"
  by (simp add: numeral_eq_Suc)

lemma upt_0_8: "[0..<8] = [0, 1, 2, 3, 4, 5, 6, 7]"
  by (simp add: upt_rec)

lemma upt_0_10: "[0..<10] = [0, 1, 2, 3, 4, 5, 6, 7, 8, 9]"
  by (simp add: upt_rec)

lemma upt_0_16: "[0..<16] = [0, 1, 2, 3, 4, 5, 6, 7, 8, 9, 10, 11, 12, 13, 14, 15]"
  by (simp add: upt_rec)

lemma G_Gmix:
  "G m r i a b c d v =
     (case Gmix (v ! a) (v ! b) (v ! c) (v ! d)
             (m ! (blake2s_sigma ! r ! (2 * i + 0))) (m ! (blake2s_sigma ! r ! (2 * i + 1))) of
        [a', b', c', d'] \<Rightarrow> v[a := a', b := b', c := c', d := d'])"
  by (simp add: G_def Gmix_def Let_def)

lemma G_pos0:
  "G m r 0 0 4 8 12
     [v0, v1, v2, v3, v4, v5, v6, v7, v8, v9, v10, v11, v12, v13, v14, v15] =
   (case Gmix v0 v4 v8 v12 (m ! (blake2s_sigma ! r ! 0)) (m ! (blake2s_sigma ! r ! 1)) of
      [a, b, c, d] \<Rightarrow>
        [a, v1, v2, v3, b, v5, v6, v7, c, v9, v10, v11, d, v13, v14, v15])"
  by (simp add: G_Gmix list_update_Cons_numeral Gmix_def Let_def)

lemma G_pos1:
  "G m r (Suc 0) (Suc 0) 5 9 13
     [v0, v1, v2, v3, v4, v5, v6, v7, v8, v9, v10, v11, v12, v13, v14, v15] =
   (case Gmix v1 v5 v9 v13 (m ! (blake2s_sigma ! r ! 2)) (m ! (blake2s_sigma ! r ! 3)) of
      [a, b, c, d] \<Rightarrow>
        [v0, a, v2, v3, v4, b, v6, v7, v8, c, v10, v11, v12, d, v14, v15])"
  by (simp add: G_Gmix list_update_Cons_numeral Gmix_def Let_def)

lemma G_pos2:
  "G m r 2 2 6 10 14
     [v0, v1, v2, v3, v4, v5, v6, v7, v8, v9, v10, v11, v12, v13, v14, v15] =
   (case Gmix v2 v6 v10 v14 (m ! (blake2s_sigma ! r ! 4)) (m ! (blake2s_sigma ! r ! 5)) of
      [a, b, c, d] \<Rightarrow>
        [v0, v1, a, v3, v4, v5, b, v7, v8, v9, c, v11, v12, v13, d, v15])"
  by (simp add: G_Gmix list_update_Cons_numeral Gmix_def Let_def)

lemma G_pos3:
  "G m r 3 3 7 11 15
     [v0, v1, v2, v3, v4, v5, v6, v7, v8, v9, v10, v11, v12, v13, v14, v15] =
   (case Gmix v3 v7 v11 v15 (m ! (blake2s_sigma ! r ! 6)) (m ! (blake2s_sigma ! r ! 7)) of
      [a, b, c, d] \<Rightarrow>
        [v0, v1, v2, a, v4, v5, v6, b, v8, v9, v10, c, v12, v13, v14, d])"
  by (simp add: G_Gmix list_update_Cons_numeral Gmix_def Let_def)

lemma G_pos4:
  "G m r 4 0 5 10 15
     [v0, v1, v2, v3, v4, v5, v6, v7, v8, v9, v10, v11, v12, v13, v14, v15] =
   (case Gmix v0 v5 v10 v15 (m ! (blake2s_sigma ! r ! 8)) (m ! (blake2s_sigma ! r ! 9)) of
      [a, b, c, d] \<Rightarrow>
        [a, v1, v2, v3, v4, b, v6, v7, v8, v9, c, v11, v12, v13, v14, d])"
  by (simp add: G_Gmix list_update_Cons_numeral Gmix_def Let_def)

lemma G_pos5:
  "G m r 5 (Suc 0) 6 11 12
     [v0, v1, v2, v3, v4, v5, v6, v7, v8, v9, v10, v11, v12, v13, v14, v15] =
   (case Gmix v1 v6 v11 v12 (m ! (blake2s_sigma ! r ! 10)) (m ! (blake2s_sigma ! r ! 11)) of
      [a, b, c, d] \<Rightarrow>
        [v0, a, v2, v3, v4, v5, b, v7, v8, v9, v10, c, d, v13, v14, v15])"
  by (simp add: G_Gmix list_update_Cons_numeral Gmix_def Let_def)

lemma G_pos6:
  "G m r 6 2 7 8 13
     [v0, v1, v2, v3, v4, v5, v6, v7, v8, v9, v10, v11, v12, v13, v14, v15] =
   (case Gmix v2 v7 v8 v13 (m ! (blake2s_sigma ! r ! 12)) (m ! (blake2s_sigma ! r ! 13)) of
      [a, b, c, d] \<Rightarrow>
        [v0, v1, a, v3, v4, v5, v6, b, c, v9, v10, v11, v12, d, v14, v15])"
  by (simp add: G_Gmix list_update_Cons_numeral Gmix_def Let_def)

lemma G_pos7:
  "G m r 7 3 4 9 14
     [v0, v1, v2, v3, v4, v5, v6, v7, v8, v9, v10, v11, v12, v13, v14, v15] =
   (case Gmix v3 v4 v9 v14 (m ! (blake2s_sigma ! r ! 14)) (m ! (blake2s_sigma ! r ! 15)) of
      [a, b, c, d] \<Rightarrow>
        [v0, v1, v2, a, b, v5, v6, v7, v8, c, v10, v11, v12, v13, d, v15])"
  by (simp add: G_Gmix list_update_Cons_numeral Gmix_def Let_def)

lemma blake2s_update_Nil: "blake2s_update e S [] = S"
  by (simp add: blake2s_update.simps)

lemmas word_eval =
  W_numeral W_0 W_1 W_of_nat W_add W_xor W_less W_eq W_rotr W_not W_drop_bit W_push_bit
  W_ucast8 ucast8_W unat_W red32_eval rot32_def Let_W

lemmas list_eval =
  Let_Cons Let_Nil list_update_Cons_numeral replicate_numeral_Cons upt_0_8 upt_0_10 upt_0_16

lemmas G_pos = G_pos0 G_pos1 G_pos2 G_pos3 G_pos4 G_pos5 G_pos6 G_pos7

lemmas compress_eval =
  blake2s_compress_def BLAKE2S_ROUND_def G_pos Gmix_def blake2s_IV_def blake2s_sigma_def load32_def

lemmas init_eval =
  blake2s_init_def blake2s_init_param_def blake2s_init0_def sequential_param_def param_bytes_def
  store32_def store48_def blake2s_IV_def load32_def

lemmas final_eval =
  blake2s_final_def blake2s_set_lastblock_def blake2s_set_lastnode_def not_0U_W
  blake2s_increment_counter_def memset_def memcpy_def store32_def

section \<open>Loads and stores\<close>

lemma unat_le_word4:
  "unat (le_word [b0, b1, b2, b3]) = unat b0 + 2 ^ 8 * unat b1 + 2 ^ 16 * unat b2 + 2 ^ 24 * unat b3"
proof -
  define N where "N = unat b0 + 2 ^ 8 * unat b1 + 2 ^ 16 * unat b2 + 2 ^ 24 * unat b3"
  have b: "unat b0 < 256" "unat b1 < 256" "unat b2 < 256" "unat b3 < 256"
    using unsigned_less [of b0] unsigned_less [of b1] unsigned_less [of b2] unsigned_less [of b3]
    by simp_all
  have "word_of_nat N = le_word [b0, b1, b2, b3]"
    unfolding N_def by (simp add: push_bit_eq_mult algebra_simps)
  moreover have "N < 2 ^ 32"
    unfolding N_def using b by simp
  ultimately have "unat (le_word [b0, b1, b2, b3]) = N"
    using of_nat_inverse [of N "le_word [b0, b1, b2, b3]"] by simp
  then show ?thesis by (simp only: N_def)
qed

lemma ucast_add_push_bit:
  "(ucast (b :: u8) :: u32) + push_bit 8 x = ucast b OR push_bit 8 x"
  by (rule disjunctive_add) (auto simp add: bit_simps dest: bit_imp_le_length)

lemma le_word4_or:
  "le_word [b0, b1, b2, b3] =
     ucast b0 OR push_bit 8 (ucast b1 OR push_bit 8 (ucast b2 OR push_bit 8 (ucast b3)))"
  by (simp only: le_word.simps ucast_add_push_bit) simp

lemma le_word_store:
  "le_word [ucast w, ucast (drop_bit 8 w), ucast (drop_bit 16 w), ucast (drop_bit 24 w)] = (w :: u32)"
  unfolding le_word4_or
  apply (rule bit_word_eqI)
  apply (auto simp add: bit_simps)
  subgoal for n by (cases "24 \<le> n") simp_all
  done

lemma store_le_word:
  "[ucast (le_word [b0, b1, b2, b3]), ucast (drop_bit 8 (le_word [b0, b1, b2, b3])),
    ucast (drop_bit 16 (le_word [b0, b1, b2, b3])), ucast (drop_bit 24 (le_word [b0, b1, b2, b3]))] =
   [b0, b1, b2, b3]"
  unfolding le_word4_or
  apply simp
  apply (intro conjI bit_word_eqI)
     apply (auto simp add: bit_simps dest: bit_imp_le_length)
  done

lemma load32_store32: "load32 e (store32 e w) = w"
proof (cases e)
  case LittleEndian
  then show ?thesis
    by (simp add: load32_def store32_def le_word_store del: le_word.simps)
next
  case BigEndian
  then show ?thesis
    by (simp add: load32_def store32_def le_word_store del: le_word.simps)
qed

lemma store32_load32: "store32 e (load32 e [b0, b1, b2, b3]) = [b0, b1, b2, b3]"
proof (cases e)
  case LittleEndian
  then show ?thesis
    by (simp add: load32_def store32_def store_le_word del: le_word.simps)
next
  case BigEndian
  then show ?thesis
    using store_le_word [of b3 b2 b1 b0]
    by (simp add: load32_def store32_def del: le_word.simps)
qed

section \<open>The update loop\<close>

lemma blake2s_update_full:
  "2 * BLAKE2S_BLOCKBYTES - buflen S < length inp \<Longrightarrow>
   blake2s_update e S inp =
     blake2s_update e (update_block e S inp) (drop (2 * BLAKE2S_BLOCKBYTES - buflen S) inp)"
  by (subst blake2s_update.simps)
    (auto simp add: update_block_def compress_shift_def fill_buffer_def Let_def)

lemma blake2s_update_fit:
  "length inp \<le> 2 * BLAKE2S_BLOCKBYTES - buflen S \<Longrightarrow> inp \<noteq> [] \<Longrightarrow>
   blake2s_update e S inp = update_append S inp"
  by (subst blake2s_update.simps) (simp add: update_append_def Let_def blake2s_update_Nil)

lemma compress_fields [simp]:
  "t (blake2s_compress e S b) = t S" "f (blake2s_compress e S b) = f S"
  "buf (blake2s_compress e S b) = buf S" "buflen (blake2s_compress e S b) = buflen S"
  "last_node (blake2s_compress e S b) = last_node S"
  "length (h (blake2s_compress e S b)) = 8"
  by (simp_all add: blake2s_compress_def Let_def)

lemma increment_counter_fields [simp]:
  "h (blake2s_increment_counter S n) = h S" "f (blake2s_increment_counter S n) = f S"
  "buf (blake2s_increment_counter S n) = buf S" "buflen (blake2s_increment_counter S n) = buflen S"
  "last_node (blake2s_increment_counter S n) = last_node S"
  "length (t (blake2s_increment_counter S n)) = length (t S)"
  by (simp_all add: blake2s_increment_counter_def Let_def)

lemma length_memcpy:
  "off + n \<le> length dst \<Longrightarrow> n \<le> length src \<Longrightarrow> length (memcpy dst off src n) = length dst"
  by (simp add: memcpy_def)

lemma memcpy_memcpy:
  "off + length a \<le> length dst \<Longrightarrow>
   memcpy (memcpy dst off a (length a)) (off + length a) b n = memcpy dst off (a @ b) (length a + n)"
  by (simp add: memcpy_def ac_simps)

lemma fill_buffer_fields [simp]:
  "h (fill_buffer S inp) = h S" "t (fill_buffer S inp) = t S" "f (fill_buffer S inp) = f S"
  "last_node (fill_buffer S inp) = last_node S"
  "buf (fill_buffer S inp) = memcpy (buf S) (buflen S) inp (2 * BLAKE2S_BLOCKBYTES - buflen S)"
  "buflen (fill_buffer S inp) = buflen S + (2 * BLAKE2S_BLOCKBYTES - buflen S)"
  by (simp_all add: fill_buffer_def Let_def)

lemma update_append_fields [simp]:
  "h (update_append S inp) = h S" "t (update_append S inp) = t S" "f (update_append S inp) = f S"
  "last_node (update_append S inp) = last_node S"
  "buf (update_append S inp) = memcpy (buf S) (buflen S) inp (length inp)"
  "buflen (update_append S inp) = buflen S + length inp"
  by (simp_all add: update_append_def Let_def)

lemma compress_shift_fields [simp]:
  "t (compress_shift e S) = t (blake2s_increment_counter S (word_of_nat BLAKE2S_BLOCKBYTES))"
  "f (compress_shift e S) = f S"
  "last_node (compress_shift e S) = last_node S"
  "buf (compress_shift e S) = memcpy (buf S) 0 (drop BLAKE2S_BLOCKBYTES (buf S)) BLAKE2S_BLOCKBYTES"
  "buflen (compress_shift e S) = buflen S - BLAKE2S_BLOCKBYTES"
  "length (h (compress_shift e S)) = 8"
  by (simp_all add: compress_shift_def Let_def)

lemma fill_buffer_valid:
  assumes "valid_state S" "2 * BLAKE2S_BLOCKBYTES - buflen S \<le> length inp"
  shows "valid_state (fill_buffer S inp)" "buflen (fill_buffer S inp) = 2 * BLAKE2S_BLOCKBYTES"
  using assms by (simp_all add: valid_state_def length_memcpy)

lemma compress_shift_valid:
  assumes "valid_state S" "buflen S = 2 * BLAKE2S_BLOCKBYTES"
  shows "valid_state (compress_shift e S)" "buflen (compress_shift e S) = BLAKE2S_BLOCKBYTES"
  using assms by (simp_all add: valid_state_def length_memcpy)

lemma update_block_valid:
  assumes "valid_state S" "2 * BLAKE2S_BLOCKBYTES - buflen S \<le> length inp"
  shows "valid_state (update_block e S inp)" "buflen (update_block e S inp) = BLAKE2S_BLOCKBYTES"
  using assms unfolding update_block_def
  by (simp_all add: compress_shift_valid fill_buffer_valid del: compress_shift_fields fill_buffer_fields)

lemma update_append_valid:
  assumes "valid_state S" "length inp \<le> 2 * BLAKE2S_BLOCKBYTES - buflen S"
  shows "valid_state (update_append S inp)"
  using assms by (auto simp add: valid_state_def length_memcpy)

lemma state_eqI:
  "h A = h B \<Longrightarrow> t A = t B \<Longrightarrow> f A = f B \<Longrightarrow> buf A = buf B \<Longrightarrow> buflen A = buflen B \<Longrightarrow>
   last_node A = last_node B \<Longrightarrow> (A :: blake2s_state) = B"
  by simp

lemma fill_buffer_prefix:
  "2 * BLAKE2S_BLOCKBYTES - buflen S \<le> length a \<Longrightarrow> fill_buffer S (a @ b) = fill_buffer S a"
  by (rule state_eqI) (simp_all add: memcpy_def)

lemma update_block_prefix:
  "2 * BLAKE2S_BLOCKBYTES - buflen S \<le> length a \<Longrightarrow> update_block e S (a @ b) = update_block e S a"
  by (simp add: update_block_def fill_buffer_prefix)

lemma update_append_append:
  assumes "valid_state S" "length a + length b \<le> 2 * BLAKE2S_BLOCKBYTES - buflen S"
  shows "update_append (update_append S a) b = update_append S (a @ b)"
proof (rule state_eqI)
  have "buflen S + length a \<le> length (buf S)"
    using assms unfolding valid_state_def by arith
  then show "buf (update_append (update_append S a) b) = buf (update_append S (a @ b))"
    by (simp add: memcpy_memcpy)
qed simp_all

lemma fill_buffer_append:
  assumes "valid_state S" "length a \<le> 2 * BLAKE2S_BLOCKBYTES - buflen S"
  shows "fill_buffer (update_append S a) b = fill_buffer S (a @ b)"
proof (rule state_eqI)
  have l: "buflen S + length a \<le> length (buf S)"
    using assms unfolding valid_state_def by arith
  have "length a + (2 * BLAKE2S_BLOCKBYTES - (buflen S + length a)) = 2 * BLAKE2S_BLOCKBYTES - buflen S"
    using assms by simp
  then show "buf (fill_buffer (update_append S a) b) = buf (fill_buffer S (a @ b))"
    using l by (simp add: memcpy_memcpy)
  show "buflen (fill_buffer (update_append S a) b) = buflen (fill_buffer S (a @ b))"
    using assms by simp
qed simp_all

lemma update_block_append:
  assumes "valid_state S" "length a \<le> 2 * BLAKE2S_BLOCKBYTES - buflen S"
  shows "update_block e (update_append S a) b = update_block e S (a @ b)"
  using assms by (simp add: update_block_def fill_buffer_append)

lemma blake2s_update_valid:
  "valid_state S \<Longrightarrow> valid_state (blake2s_update e S inp)"
proof (induction "129 * length inp + buflen S" arbitrary: S inp rule: less_induct)
  case less
  show ?case
  proof (cases "2 * BLAKE2S_BLOCKBYTES - buflen S < length inp")
    case True
    let ?S = "update_block e S inp" and ?r = "drop (2 * BLAKE2S_BLOCKBYTES - buflen S) inp"
    have v: "valid_state ?S" "buflen ?S = BLAKE2S_BLOCKBYTES"
      using less.prems True by (simp_all add: update_block_valid)
    have "129 * length ?r + buflen ?S < 129 * length inp + buflen S"
      using True v(2) less.prems by (auto simp add: valid_state_def)
    then have "valid_state (blake2s_update e ?S ?r)"
      using v(1) by (rule less.hyps)
    then show ?thesis
      using True by (simp add: blake2s_update_full)
  next
    case False
    then show ?thesis
      using less.prems
      by (cases "inp = []") (simp_all add: blake2s_update_Nil blake2s_update_fit update_append_valid)
  qed
qed

lemma blake2s_update_append:
  "valid_state S \<Longrightarrow> blake2s_update e (blake2s_update e S a) b = blake2s_update e S (a @ b)"
proof (induction "129 * length a + buflen S" arbitrary: S a rule: less_induct)
  case less
  let ?fill = "2 * BLAKE2S_BLOCKBYTES - buflen S"
  show ?case
  proof (cases "?fill < length a")
    case True
    let ?S = "update_block e S a" and ?r = "drop ?fill a"
    have v: "valid_state ?S" "buflen ?S = BLAKE2S_BLOCKBYTES"
      using less.prems True by (simp_all add: update_block_valid)
    have "129 * length ?r + buflen ?S < 129 * length a + buflen S"
      using True v(2) less.prems by (auto simp add: valid_state_def)
    then have IH: "blake2s_update e (blake2s_update e ?S ?r) b = blake2s_update e ?S (?r @ b)"
      using v(1) by (rule less.hyps)
    have "blake2s_update e S (a @ b) = blake2s_update e (update_block e S (a @ b)) (drop ?fill (a @ b))"
      using True by (simp add: blake2s_update_full)
    also have "\<dots> = blake2s_update e ?S (?r @ b)"
      using True by (simp add: update_block_prefix)
    finally show ?thesis
      using True IH by (simp add: blake2s_update_full)
  next
    case fit: False
    show ?thesis
    proof (cases "a = []")
      case True
      then show ?thesis by (simp add: blake2s_update_Nil)
    next
      case a: False
      then have ua: "blake2s_update e S a = update_append S a"
        using fit by (simp add: blake2s_update_fit)
      have bl: "buflen (update_append S a) = buflen S + length a"
        by (simp add: update_append_def Let_def)
      show ?thesis
      proof (cases "b = []")
        case True
        then show ?thesis by (simp add: blake2s_update_Nil)
      next
        case b: False
        show ?thesis
        proof (cases "length a + length b \<le> ?fill")
          case True
          then show ?thesis
            using a b fit less.prems
            by (simp add: ua bl blake2s_update_fit update_append_append)
        next
          case False
          then have "blake2s_update e (update_append S a) b =
                blake2s_update e (update_block e (update_append S a) b) (drop (?fill - length a) b)"
            using fit by (subst blake2s_update_full) (simp_all add: bl)
          moreover have "blake2s_update e S (a @ b) =
                blake2s_update e (update_block e S (a @ b)) (drop ?fill (a @ b))"
            using False by (subst blake2s_update_full) simp_all
          ultimately show ?thesis
            using fit less.prems by (simp add: ua update_block_append)
        qed
      qed
    qed
  qed
qed


section \<open>The counter\<close>

lemma counter64_increment:
  assumes "length (t S) = 2"
  shows "counter64 (blake2s_increment_counter S inc) = (counter64 S + unat inc) mod 2 ^ 64"
proof -
  obtain t0 t1 where ts: "t S = [t0, t1]"
    using assms by (cases "t S"; cases "tl (t S)") auto
  have b: "unat t0 < 2 ^ 32" "unat t1 < 2 ^ 32" "unat inc < 2 ^ 32"
    using unsigned_less [of t0] unsigned_less [of t1] unsigned_less [of inc] by simp_all
  show ?thesis
  proof (cases "unat t0 + unat inc < 2 ^ 32")
    case True
    then have "\<not> t0 + inc < inc"
      by (simp add: word_less_nat_alt unat_plus_if')
    with True b show ?thesis
      by (simp add: counter64_def blake2s_increment_counter_def ts Let_def unat_plus_if')
  next
    case False
    then have c: "t0 + inc < inc"
      using b by (simp add: word_less_nat_alt unat_plus_if')
    show ?thesis
    proof (cases "unat t1 + 1 < 2 ^ 32")
      case True
      with False b c show ?thesis
        by (simp add: counter64_def blake2s_increment_counter_def ts Let_def unat_plus_if')
    next
      case F2: False
      with b have t1: "unat t1 = 4294967295"
        by simp
      have "unat t1 * 4294967296 + unat t0 + unat inc =
            18446744073709551616 + (unat t0 + unat inc - 4294967296)"
        using False t1 by simp
      moreover have "unat t0 + unat inc - 4294967296 < (18446744073709551616 :: nat)"
        using b by simp
      ultimately have "(unat t1 * 4294967296 + unat t0 + unat inc) mod 18446744073709551616 =
            unat t0 + unat inc - 4294967296"
        by (simp del: mult_numeral_left_semiring_numeral)
      with False b c F2 show ?thesis
        by (simp add: counter64_def blake2s_increment_counter_def ts Let_def unat_plus_if')
    qed
  qed
qed


text \<open>
  C9. \<open>blake2s_increment_counter\<close> is addition modulo \<open>2^64\<close> on the counter
  \<open>t[1] * 2^32 + t[0]\<close>: the low word is added with wrap-around, and the carry into the
  high word is the outcome of the comparison \<open>t[0] < inc\<close> made after that addition.
  Nothing saturates: the value after the call is the sum reduced modulo \<open>2^64\<close>.
\<close>

theorem increment_counter_wraps:
  assumes "length (t S) = 2"
  shows "counter64 (blake2s_increment_counter S inc) = (counter64 S + unat inc) mod 2 ^ 64 \<and>
         t (blake2s_increment_counter S inc) ! 0 = t S ! 0 + inc \<and>
         t (blake2s_increment_counter S inc) ! 1 =
           t S ! 1 + (if t S ! 0 + inc < inc then 1 else 0)"
proof -
  obtain t0 t1 where ts: "t S = [t0, t1]"
    using assms by (cases "t S"; cases "tl (t S)") auto
  show ?thesis
    using counter64_increment [OF assms, of inc]
    by (simp add: blake2s_increment_counter_def Let_def ts)
qed

theorem increment_counter_wraps_witness:
  "length (t \<lparr>h = [], t = [0xFFFFFFC0, 0xFFFFFFFF], f = [0, 0], buf = [], buflen = 0,
              last_node = 0 :: u8\<rparr>) = 2 \<and>
   counter64 (blake2s_increment_counter
      \<lparr>h = [], t = [0xFFFFFFC0, 0xFFFFFFFF], f = [0, 0], buf = [], buflen = 0, last_node = 0\<rparr> 64) = 0"
  using increment_counter_wraps
    [of "\<lparr>h = [], t = [0xFFFFFFC0, 0xFFFFFFFF], f = [0, 0], buf = [], buflen = 0, last_node = 0\<rparr>" 64]
  by (simp add: counter64_def)

section \<open>Byte order of loads and stores\<close>

lemma unat_load32_BigEndian:
  "unat (load32 BigEndian [b0, b1, b2, b3]) =
     unat b3 + 2 ^ 8 * unat b2 + 2 ^ 16 * unat b1 + 2 ^ 24 * unat b0"
  using unat_le_word4 [of b3 b2 b1 b0] by (simp add: load32_def del: le_word.simps)

text \<open>
  C5 (as amended). On a little-endian host \<open>load32\<close> of the bytes \<open>b0 b1 b2 b3\<close> is
  \<open>b0 + 2^8 * b1 + 2^16 * b2 + 2^24 * b3\<close>, and \<open>store32\<close> is the inverse of
  \<open>load32\<close>.
\<close>

theorem load32_store32_little_endian_host:
  "unat (load32 LittleEndian [b0, b1, b2, b3]) =
     unat b0 + 2 ^ 8 * unat b1 + 2 ^ 16 * unat b2 + 2 ^ 24 * unat b3 \<and>
   load32 LittleEndian (store32 LittleEndian w) = w \<and>
   store32 LittleEndian (load32 LittleEndian [b0, b1, b2, b3]) = [b0, b1, b2, b3]"
proof -
  have le: "unat (load32 LittleEndian [b0, b1, b2, b3]) =
      unat b0 + 2 ^ 8 * unat b1 + 2 ^ 16 * unat b2 + 2 ^ 24 * unat b3"
    using unat_le_word4 [of b0 b1 b2 b3] by (simp add: load32_def del: le_word.simps)
  show ?thesis
    by (intro conjI le load32_store32 store32_load32)
qed

text \<open>
  The claim as stated, independence of the host's byte order, fails: \<open>load32\<close> is a
  plain \<open>uint32_t\<close> access, and on a big-endian host the bytes \<open>01 00 00 00\<close> load as
  \<open>2^24\<close>, not as 1.
\<close>

theorem load32_host_independent_counterexample:
  "unat (load32 BigEndian [1, 0, 0, 0]) \<noteq> 1 + 2 ^ 8 * 0 + 2 ^ 16 * 0 + 2 ^ 24 * 0"
  by (simp add: load32_def)

section \<open>Initialisation\<close>

lemma length_store32 [simp]: "length (store32 e w) = 4"
  by (cases e) (simp_all add: store32_def)

lemma init_param_fields [simp]:
  "t (blake2s_init_param e P) = [0, 0]" "f (blake2s_init_param e P) = [0, 0]"
  "buf (blake2s_init_param e P) = replicate (2 * BLAKE2S_BLOCKBYTES) 0"
  "buflen (blake2s_init_param e P) = 0" "last_node (blake2s_init_param e P) = 0"
  "length (h (blake2s_init_param e P)) = 8"
  by (simp_all add: blake2s_init_param_def blake2s_init0_def Let_def)

lemma init_param_valid: "valid_state (blake2s_init_param e P)"
  by (simp add: valid_state_def)

lemma blake2s_init_valid: "blake2s_init e outlen = Inr S \<Longrightarrow> valid_state S"
  by (auto simp add: blake2s_init_def init_param_valid split: if_splits)

lemma blake2s_init_key_valid: "blake2s_init_key e outlen key keylen = Inr S \<Longrightarrow> valid_state S"
  by (auto simp add: blake2s_init_key_def Let_def init_param_valid blake2s_update_valid
      split: if_splits)

section \<open>Known digests\<close>

lemma init_LE_32:
  assumes "endian e = LittleEndian"
  shows
    "blake2s_init e 32 =
       Inr \<lparr>h = [0x6B08E647, 0xBB67AE85, 0x3C6EF372, 0xA54FF53A,
                0x510E527F, 0x9B05688C, 0x1F83D9AB, 0x5BE0CD19],
            t = [0, 0], f = [0, 0], buf = replicate 128 0, buflen = 0, last_node = 0\<rparr>"
  using assms
  by (simp add: init_eval word_eval list_eval cong: let_weak_cong)

lemma init_LE_1:
  assumes "endian e = LittleEndian"
  shows
    "blake2s_init e 1 =
       Inr \<lparr>h = [0x6B08E666, 0xBB67AE85, 0x3C6EF372, 0xA54FF53A,
                0x510E527F, 0x9B05688C, 0x1F83D9AB, 0x5BE0CD19],
            t = [0, 0], f = [0, 0], buf = replicate 128 0, buflen = 0, last_node = 0\<rparr>"
  using assms
  by (simp add: init_eval word_eval list_eval cong: let_weak_cong)

lemma update_abc:
  "blake2s_update e
     \<lparr>h = hs, t = ts, f = fs, buf = replicate 128 0, buflen = 0, last_node = l\<rparr>
     [0x61, 0x62, 0x63] =
   \<lparr>h = hs, t = ts, f = fs, buf = 0x61 # 0x62 # 0x63 # replicate 125 0, buflen = 3,
    last_node = l\<rparr>"
  by (simp add: blake2s_update_fit update_append_def memcpy_def list_eval)

lemma final_empty_LE_32:
  assumes "endian e = LittleEndian"
    and "32 \<le> uint_bits e"
  shows
    "snd (blake2s_final e
       \<lparr>h = [0x6B08E647, 0xBB67AE85, 0x3C6EF372, 0xA54FF53A,
             0x510E527F, 0x9B05688C, 0x1F83D9AB, 0x5BE0CD19],
        t = [0, 0], f = [0, 0], buf = replicate 128 0, buflen = 0, last_node = 0\<rparr> 32) =
     [0x69, 0x21, 0x7a, 0x30, 0x79, 0x90, 0x80, 0x94, 0xe1, 0x11, 0x21, 0xd0, 0x42, 0x35, 0x4a, 0x7c,
      0x1f, 0x55, 0xb6, 0x48, 0x2c, 0xa1, 0xa5, 0x1e, 0x1b, 0x25, 0x0d, 0xfd, 0x1e, 0xd0, 0xee, 0xf9]"
  using assms
  by (simp add: final_eval compress_eval word_eval list_eval cong: let_weak_cong)

lemma final_abc_LE_32:
  assumes "endian e = LittleEndian"
    and "32 \<le> uint_bits e"
  shows
    "snd (blake2s_final e
       \<lparr>h = [0x6B08E647, 0xBB67AE85, 0x3C6EF372, 0xA54FF53A,
             0x510E527F, 0x9B05688C, 0x1F83D9AB, 0x5BE0CD19],
        t = [0, 0], f = [0, 0], buf = 0x61 # 0x62 # 0x63 # replicate 125 0, buflen = 3,
        last_node = 0\<rparr> 32) =
     [0x50, 0x8c, 0x5e, 0x8c, 0x32, 0x7c, 0x14, 0xe2, 0xe1, 0xa7, 0x2b, 0xa3, 0x4e, 0xeb, 0x45, 0x2f,
      0x37, 0x45, 0x8b, 0x20, 0x9e, 0xd6, 0x3a, 0x29, 0x4d, 0x99, 0x9b, 0x4c, 0x86, 0x67, 0x59, 0x82]"
  using assms
  by (simp add: final_eval compress_eval word_eval list_eval cong: let_weak_cong)

lemma final_empty_LE_1:
  assumes "endian e = LittleEndian"
    and "32 \<le> uint_bits e"
  shows
    "snd (blake2s_final e
       \<lparr>h = [0x6B08E666, 0xBB67AE85, 0x3C6EF372, 0xA54FF53A,
             0x510E527F, 0x9B05688C, 0x1F83D9AB, 0x5BE0CD19],
        t = [0, 0], f = [0, 0], buf = replicate 128 0, buflen = 0, last_node = 0\<rparr> 1) = [0xa1]"
  using assms
  by (simp add: final_eval compress_eval word_eval list_eval cong: let_weak_cong)

lemma blake2s_empty_LE_32:
  assumes "endian e = LittleEndian"
    and "32 \<le> uint_bits e"
  shows
    "blake2s e (Some dst) (Some []) None 32 0 =
     Inr [0x69, 0x21, 0x7a, 0x30, 0x79, 0x90, 0x80, 0x94, 0xe1, 0x11, 0x21, 0xd0, 0x42, 0x35, 0x4a, 0x7c,
          0x1f, 0x55, 0xb6, 0x48, 0x2c, 0xa1, 0xa5, 0x1e, 0x1b, 0x25, 0x0d, 0xfd, 0x1e, 0xd0, 0xee, 0xf9]"
  using assms
  by (simp add: blake2s_def init_LE_32 blake2s_update_Nil final_empty_LE_32)

lemma blake2s_abc_LE_32:
  assumes "endian e = LittleEndian"
    and "32 \<le> uint_bits e"
  shows
    "blake2s e (Some dst) (Some [0x61, 0x62, 0x63]) None 32 0 =
     Inr [0x50, 0x8c, 0x5e, 0x8c, 0x32, 0x7c, 0x14, 0xe2, 0xe1, 0xa7, 0x2b, 0xa3, 0x4e, 0xeb, 0x45, 0x2f,
          0x37, 0x45, 0x8b, 0x20, 0x9e, 0xd6, 0x3a, 0x29, 0x4d, 0x99, 0x9b, 0x4c, 0x86, 0x67, 0x59, 0x82]"
  using assms
  by (simp add: blake2s_def init_LE_32 update_abc final_abc_LE_32)

lemma blake2s_empty_LE_1:
  assumes "endian e = LittleEndian"
    and "32 \<le> uint_bits e"
  shows
    "blake2s e (Some dst) (Some []) None 1 0 = Inr [0xa1]"
  using assms
  by (simp add: blake2s_def init_LE_1 blake2s_update_Nil final_empty_LE_1)

text \<open>
  C1 (as amended). On every little-endian host whose \<open>unsigned int\<close> has at least 32
  bits, the unkeyed one-shot hash with 32-byte output of the empty string is
  \<open>69217a3079908094e11121d042354a7c1f55b6482ca1a51e1b250dfd1ed0eef9\<close>, and that of the
  three bytes \<open>abc\<close> (\<open>0x61 0x62 0x63\<close>) is
  \<open>508c5e8c327c14e2e1a72ba34eeb452f37458b209ed63a294d999b4c86675982\<close>.
\<close>

theorem known_answers:
  assumes "endian e = LittleEndian"
    and "32 \<le> uint_bits e"
  shows
    "blake2s_hex e [] =
       Some ''69217a3079908094e11121d042354a7c1f55b6482ca1a51e1b250dfd1ed0eef9'' \<and>
     blake2s_hex e [0x61, 0x62, 0x63] =
       Some ''508c5e8c327c14e2e1a72ba34eeb452f37458b209ed63a294d999b4c86675982''"
  using assms
  by (simp add: blake2s_hex_def blake2s_empty_LE_32 blake2s_abc_LE_32 hex_of_def hex_digit_def)

theorem known_answers_witness:
  "endian le32_host = LittleEndian \<and> 32 \<le> uint_bits le32_host \<and>
   blake2s_hex le32_host [] =
     Some ''69217a3079908094e11121d042354a7c1f55b6482ca1a51e1b250dfd1ed0eef9'' \<and>
   blake2s_hex le32_host [0x61, 0x62, 0x63] =
     Some ''508c5e8c327c14e2e1a72ba34eeb452f37458b209ed63a294d999b4c86675982''"
  using known_answers [of le32_host]
  by simp

text \<open>
  The digest of the empty string as the claim prints it,
  \<open>69217a3079908094e11121d042354a7c1f55b6482ca1a51e1b250dfd1ed0eee\<close>, has 63 hexadecimal
  digits and is not what the code computes, here on the little-endian host with a 32-bit
  \<open>unsigned int\<close>.
\<close>

theorem known_answers_as_printed_counterexample:
  "\<not> (blake2s_hex le32_host [] =
        Some ''69217a3079908094e11121d042354a7c1f55b6482ca1a51e1b250dfd1ed0eee'' \<and>
      blake2s_hex le32_host [0x61, 0x62, 0x63] =
        Some ''508c5e8c327c14e2e1a72ba34eeb452f37458b209ed63a294d999b4c86675982'')"
  by (simp add: blake2s_hex_def blake2s_empty_LE_32 hex_of_def hex_digit_def)

subsection \<open>A 16-bit \<open>unsigned int\<close>\<close>

text \<open>
  Where \<open>unsigned int\<close> has 16 bits, \<open>~0U\<close> is \<open>0xFFFF\<close>: the finalisation flag \<open>f[0]\<close>
  becomes \<open>0x0000FFFF\<close> instead of \<open>0xFFFFFFFF\<close>, and the digest of the empty string on
  the little-endian host of that kind is not the BLAKE2s digest.
\<close>

lemma not_0U_16_bits: "not_0U le16_host = 0x0000FFFF"
  by (simp add: not_0U_def)

lemma final_empty_LE_16_bits:
  "snd (blake2s_final le16_host
     \<lparr>h = [0x6B08E647, 0xBB67AE85, 0x3C6EF372, 0xA54FF53A,
           0x510E527F, 0x9B05688C, 0x1F83D9AB, 0x5BE0CD19],
      t = [0, 0], f = [0, 0], buf = replicate 128 0, buflen = 0, last_node = 0\<rparr> 32) =
   [0xfb, 0x2b, 0x48, 0x9c, 0xa3, 0xb0, 0xd0, 0xa2, 0x4f, 0xf3, 0xd5, 0xed, 0x65, 0x14, 0x89, 0x56,
    0x33, 0x54, 0x68, 0x0e, 0x9b, 0x23, 0x15, 0x93, 0x65, 0x32, 0x20, 0x4c, 0x44, 0x75, 0x8c, 0xe6]"
  by (simp add: final_eval not_0U_16 compress_eval word_eval list_eval cong: let_weak_cong)

lemma blake2s_hex_empty_LE_16_bits:
  "blake2s_hex le16_host [] =
     Some ''fb2b489ca3b0d0a24ff3d5ed651489563354680e9b2315936532204c44758ce6''"
  by (simp add: blake2s_hex_def blake2s_def init_LE_32 blake2s_update_Nil final_empty_LE_16_bits
      hex_of_def hex_digit_def)

section \<open>Finalisation\<close>

lemma length_serialise:
  "length (concat (map (\<lambda>i. store32 e (hs ! i)) [0..<8])) = BLAKE2S_OUTBYTES"
  by (simp add: upt_0_8)

lemma final_take:
  assumes "unat outlen \<le> BLAKE2S_OUTBYTES"
  shows "snd (blake2s_final e S outlen) = take (unat outlen) (snd (blake2s_final e S 32))"
    and "length (snd (blake2s_final e S outlen)) = unat outlen"
    and "fst (blake2s_final e S outlen) = fst (blake2s_final e S 32)"
  using assms length_serialise [of "endian e"]
  by (simp_all add: blake2s_final_def Let_def)

lemma blake2s_Inr_outlen:
  assumes "blake2s e out inp key outlen keylen = Inr d"
  shows "outlen \<noteq> 0 \<and> unat outlen \<le> BLAKE2S_OUTBYTES"
  using assms
  by (auto simp add: blake2s_def blake2s_init_def blake2s_init_key_def Let_def
      split: if_splits sum.splits)

text \<open>
  C3 (as amended). Whenever the one-shot hash with output length \<open>L\<close> succeeds, its
  result has exactly \<open>L\<close> bytes and is the first \<open>L\<close> bytes of the 32 bytes that
  \<open>blake2s_final\<close> serialises from the state that was initialised with digest length
  \<open>L\<close> (and the same key) and updated with the input. The truncation happens on that
  state, whose initial value contains \<open>L\<close>; the result is in general not a prefix of
  the one-shot hash with output length 32.
\<close>

theorem digest_prefix_of_own_state:
  assumes "blake2s e out (Some inp) key outlen keylen = Inr d"
  shows "length d = unat outlen \<and>
         (\<exists>S0. (if key \<noteq> None \<and> keylen \<noteq> 0 then blake2s_init_key e outlen key keylen
                 else blake2s_init e outlen) = Inr S0 \<and>
               d = take (unat outlen) (snd (blake2s_final e (blake2s_update e S0 inp) 32)))"
proof -
  have ol: "unat outlen \<le> BLAKE2S_OUTBYTES"
    using blake2s_Inr_outlen [OF assms] by simp
  let ?r = "if key \<noteq> None \<and> keylen \<noteq> 0 then blake2s_init_key e outlen key keylen
            else blake2s_init e outlen"
  from assms obtain S0 where S0: "?r = Inr S0"
    and d: "d = snd (blake2s_final e (blake2s_update e S0 inp) outlen)"
    by (cases key; cases "keylen = 0")
      (auto simp add: blake2s_def Let_def word_gt_0 split: if_splits sum.splits)
  show ?thesis
    using S0 d final_take(1,2) [OF ol] by auto
qed

theorem digest_prefix_of_own_state_witness:
  "length [0xa1 :: u8] = unat (1 :: u8) \<and>
   (\<exists>S0. blake2s_init le32_host 1 = Inr S0 \<and>
         [0xa1] = take (unat (1 :: u8)) (snd (blake2s_final le32_host (blake2s_update le32_host S0 []) 32)))"
  using digest_prefix_of_own_state [OF blake2s_empty_LE_1 [of le32_host "replicate 32 0"]]
  by simp

text \<open>
  The claim as stated fails already for the empty message and \<open>L = 1\<close>: the one-byte
  hash is \<open>a1\<close>, while the 32-byte hash begins with \<open>69\<close>.
\<close>

theorem digest_prefix_counterexample:
  "blake2s le32_host (Some (replicate 32 0)) (Some []) None 1 0 \<noteq>
   map_sum id (take 1) (blake2s le32_host (Some (replicate 32 0)) (Some []) None 32 0)"
  by (simp add: blake2s_empty_LE_1 blake2s_empty_LE_32)

section \<open>Parameter checks\<close>

text \<open>
  C4 (as amended). \<open>blake2s_init_key\<close> returns \<open>InvalidParameter\<close> exactly when \<open>outlen\<close>
  is 0 or greater than 32, or the key pointer is absent, or \<open>keylen\<close> is 0 or greater
  than 32; in every other case it succeeds with a valid state. A key length of 0 is
  rejected also when a key is present: the unkeyed case is served by \<open>blake2s_init\<close>,
  to which the one-shot \<open>blake2s\<close> dispatches.
\<close>

theorem init_key_invalid_parameter:
  "(blake2s_init_key e outlen key keylen = Inl InvalidParameter) =
     (outlen = 0 \<or> 32 < unat outlen \<or> key = None \<or> keylen = 0 \<or> 32 < unat keylen) \<and>
   (\<exists>S. blake2s_init_key e outlen key keylen = Inr S \<and> valid_state S) =
     (outlen \<noteq> 0 \<and> unat outlen \<le> 32 \<and> key \<noteq> None \<and> keylen \<noteq> 0 \<and> unat keylen \<le> 32)"
  by (auto simp add: blake2s_init_key_def Let_def init_param_valid blake2s_update_valid)

theorem init_key_invalid_parameter_witness:
  "\<exists>S. blake2s_init_key le32_host 32 (Some [1, 2, 3]) 3 = Inr S \<and> valid_state S"
  using init_key_invalid_parameter [of le32_host 32 "Some [1, 2, 3]" 3]
  by simp

theorem init_key_zero_keylen_counterexample:
  "blake2s_init_key le32_host 32 (Some [1, 2, 3]) 0 = Inl InvalidParameter"
  by (simp add: blake2s_init_key_def)

section \<open>Incremental and one-shot hashing\<close>

lemma foldl_update_concat:
  "valid_state S \<Longrightarrow> foldl (blake2s_update e) S chunks = blake2s_update e S (concat chunks)"
proof (induction chunks arbitrary: S)
  case Nil
  then show ?case by (simp add: blake2s_update_Nil)
next
  case (Cons c cs)
  have "foldl (blake2s_update e) S (c # cs) = blake2s_update e (blake2s_update e S c) (concat cs)"
    using Cons.prems by (simp add: Cons.IH blake2s_update_valid)
  also have "\<dots> = blake2s_update e S (concat (c # cs))"
    using Cons.prems by (simp add: blake2s_update_append)
  finally show ?case .
qed

text \<open>
  C2. For every message, every way of cutting it into chunks (empty ones included),
  every output length and every key: initialising with \<open>blake2s_init\<close> (no key, or key
  length 0) or with \<open>blake2s_init_key\<close>, updating with the chunks in order and finalising
  gives the digest of the one-shot \<open>blake2s\<close> on the concatenation.
\<close>

theorem incremental_equals_one_shot:
  "((key = None \<or> keylen = 0) \<longrightarrow> blake2s_init e outlen = Inr S0 \<longrightarrow>
      blake2s e (Some dst) (Some (concat chunks)) key outlen keylen =
        Inr (snd (blake2s_final e (foldl (blake2s_update e) S0 chunks) outlen))) \<and>
   (keylen \<noteq> 0 \<longrightarrow> blake2s_init_key e outlen (Some k) keylen = Inr S0 \<longrightarrow>
      blake2s e (Some dst) (Some (concat chunks)) (Some k) outlen keylen =
        Inr (snd (blake2s_final e (foldl (blake2s_update e) S0 chunks) outlen)))"
proof (intro conjI impI)
  assume "key = None \<or> keylen = 0" and i: "blake2s_init e outlen = Inr S0"
  then show "blake2s e (Some dst) (Some (concat chunks)) key outlen keylen =
      Inr (snd (blake2s_final e (foldl (blake2s_update e) S0 chunks) outlen))"
    using foldl_update_concat [OF blake2s_init_valid [OF i]]
    by (auto simp add: blake2s_def Let_def)
next
  assume "keylen \<noteq> 0" and i: "blake2s_init_key e outlen (Some k) keylen = Inr S0"
  then show "blake2s e (Some dst) (Some (concat chunks)) (Some k) outlen keylen =
      Inr (snd (blake2s_final e (foldl (blake2s_update e) S0 chunks) outlen))"
    using foldl_update_concat [OF blake2s_init_key_valid [OF i]]
    by (simp add: blake2s_def Let_def word_gt_0)
qed

lemma init_key_LE_32_123:
  assumes "endian e = LittleEndian"
  shows
    "blake2s_init_key e 32 (Some [1, 2, 3]) 3 =
       Inr \<lparr>h = [0x6B08E547, 0xBB67AE85, 0x3C6EF372, 0xA54FF53A,
                0x510E527F, 0x9B05688C, 0x1F83D9AB, 0x5BE0CD19],
            t = [0, 0], f = [0, 0], buf = 1 # 2 # 3 # replicate 125 0, buflen = 64, last_node = 0\<rparr>"
  using assms
  by (simp add: blake2s_init_key_def init_eval blake2s_update_fit update_append_def memcpy_def
      word_eval list_eval cong: let_weak_cong)

theorem incremental_equals_one_shot_witness:
  "blake2s le32_host (Some (replicate 32 0)) (Some (concat [[0x61], [], [0x62, 0x63]])) None 32 0 =
     Inr (snd (blake2s_final le32_host
       (foldl (blake2s_update le32_host)
          \<lparr>h = [0x6B08E647, 0xBB67AE85, 0x3C6EF372, 0xA54FF53A,
                0x510E527F, 0x9B05688C, 0x1F83D9AB, 0x5BE0CD19],
           t = [0, 0], f = [0, 0], buf = replicate 128 0, buflen = 0, last_node = 0\<rparr>
          [[0x61], [], [0x62, 0x63]]) 32)) \<and>
   blake2s le32_host (Some (replicate 32 0)) (Some (concat [[0x61], [], [0x62, 0x63]]))
       (Some [1, 2, 3]) 32 3 =
     Inr (snd (blake2s_final le32_host
       (foldl (blake2s_update le32_host)
          \<lparr>h = [0x6B08E547, 0xBB67AE85, 0x3C6EF372, 0xA54FF53A,
                0x510E527F, 0x9B05688C, 0x1F83D9AB, 0x5BE0CD19],
           t = [0, 0], f = [0, 0], buf = 1 # 2 # 3 # replicate 125 0, buflen = 64, last_node = 0\<rparr>
          [[0x61], [], [0x62, 0x63]]) 32))"
proof
  show "blake2s le32_host (Some (replicate 32 0)) (Some (concat [[0x61], [], [0x62, 0x63]])) None 32 0 =
     Inr (snd (blake2s_final le32_host
       (foldl (blake2s_update le32_host)
          \<lparr>h = [0x6B08E647, 0xBB67AE85, 0x3C6EF372, 0xA54FF53A,
                0x510E527F, 0x9B05688C, 0x1F83D9AB, 0x5BE0CD19],
           t = [0, 0], f = [0, 0], buf = replicate 128 0, buflen = 0, last_node = 0\<rparr>
          [[0x61], [], [0x62, 0x63]]) 32))"
    using incremental_equals_one_shot [THEN conjunct1, rule_format, OF _ init_LE_32 [OF hosts(1)]]
    by blast
  show "blake2s le32_host (Some (replicate 32 0)) (Some (concat [[0x61], [], [0x62, 0x63]]))
       (Some [1, 2, 3]) 32 3 =
     Inr (snd (blake2s_final le32_host
       (foldl (blake2s_update le32_host)
          \<lparr>h = [0x6B08E547, 0xBB67AE85, 0x3C6EF372, 0xA54FF53A,
                0x510E527F, 0x9B05688C, 0x1F83D9AB, 0x5BE0CD19],
           t = [0, 0], f = [0, 0], buf = 1 # 2 # 3 # replicate 125 0, buflen = 64, last_node = 0\<rparr>
          [[0x61], [], [0x62, 0x63]]) 32))"
    by (rule incremental_equals_one_shot
          [THEN conjunct2, rule_format, OF _ init_key_LE_32_123 [OF hosts(1)]])
      simp
qed

section \<open>What one call of the update does\<close>

lemma load32_take: "4 \<le> n \<Longrightarrow> load32 e (take n b) = load32 e b"
  by (simp add: load32_def min_def)

lemma compress_take:
  "blake2s_compress e S (take BLAKE2S_BLOCKBYTES b) = blake2s_compress e S b"
proof -
  have "load32 (endian e) (drop (i * 4) (take BLAKE2S_BLOCKBYTES b)) = load32 (endian e) (drop (i * 4) b)"
    if "i < 16" for i
    using that by (simp add: drop_take load32_take)
  then have "map (\<lambda>i. load32 (endian e) (drop (i * 4) (take BLAKE2S_BLOCKBYTES b))) [0..<16] =
             map (\<lambda>i. load32 (endian e) (drop (i * 4) b)) [0..<16]"
    by simp
  then show ?thesis
    by (simp only: blake2s_compress_def)
qed

lemma unat_word_of_nat_small: "n \<le> 2 * BLAKE2S_BLOCKBYTES \<Longrightarrow> unat (word_of_nat n :: u32) = n"
  by (simp add: unat_of_nat)

lemma update_block_explicit:
  assumes "valid_state S" "2 * BLAKE2S_BLOCKBYTES - buflen S \<le> length inp"
  defines "B \<equiv> take (buflen S) (buf S) @ take (2 * BLAKE2S_BLOCKBYTES - buflen S) inp"
  shows "update_block e S inp =
           (blake2s_compress e
              (blake2s_increment_counter (S\<lparr>buf := B, buflen := 2 * BLAKE2S_BLOCKBYTES\<rparr>) 64)
              (take BLAKE2S_BLOCKBYTES B))
           \<lparr>buf := drop BLAKE2S_BLOCKBYTES B @ drop BLAKE2S_BLOCKBYTES B, buflen := BLAKE2S_BLOCKBYTES\<rparr>"
    and "length B = 2 * BLAKE2S_BLOCKBYTES"
proof -
  show l: "length B = 2 * BLAKE2S_BLOCKBYTES"
    using assms(1,2) unfolding B_def valid_state_def by auto
  have f: "fill_buffer S inp = S\<lparr>buf := B, buflen := 2 * BLAKE2S_BLOCKBYTES\<rparr>"
    using assms(1) unfolding B_def valid_state_def
    by (intro state_eqI) (simp_all add: memcpy_def)
  have m: "memcpy B 0 (drop BLAKE2S_BLOCKBYTES B) BLAKE2S_BLOCKBYTES =
           drop BLAKE2S_BLOCKBYTES B @ drop BLAKE2S_BLOCKBYTES B"
    using l by (simp add: memcpy_def)
  show "update_block e S inp =
           (blake2s_compress e
              (blake2s_increment_counter (S\<lparr>buf := B, buflen := 2 * BLAKE2S_BLOCKBYTES\<rparr>) 64)
              (take BLAKE2S_BLOCKBYTES B))
           \<lparr>buf := drop BLAKE2S_BLOCKBYTES B @ drop BLAKE2S_BLOCKBYTES B, buflen := BLAKE2S_BLOCKBYTES\<rparr>"
    unfolding update_block_def f compress_shift_def
    by (simp add: Let_def m compress_take)
qed

text \<open>
  C6. On a valid state, \<open>blake2s_update\<close> does the following. While the input left plus
  the buffered bytes exceed 128, it fills the buffer to 128 bytes (\<open>B\<close>), adds 64 to the
  64-bit counter, compresses the first 64 bytes of the buffer, moves the second half to
  the front with \<open>buflen = 64\<close>, and goes on with the rest of the input. Input that fits
  is only appended: chaining words, counter and flags stay as they are. Empty input
  leaves the state unchanged.
\<close>

theorem update_buffering:
  assumes "valid_state S"
  shows
    "(2 * BLAKE2S_BLOCKBYTES < buflen S + length inp \<longrightarrow>
        (let B = take (buflen S) (buf S) @ take (2 * BLAKE2S_BLOCKBYTES - buflen S) inp;
             S1 = blake2s_increment_counter (S\<lparr>buf := B, buflen := 2 * BLAKE2S_BLOCKBYTES\<rparr>) 64;
             S2 = (blake2s_compress e S1 (take BLAKE2S_BLOCKBYTES B))
                    \<lparr>buf := drop BLAKE2S_BLOCKBYTES B @ drop BLAKE2S_BLOCKBYTES B,
                     buflen := BLAKE2S_BLOCKBYTES\<rparr>
         in length B = 2 * BLAKE2S_BLOCKBYTES \<and>
            counter64 S1 = (counter64 S + BLAKE2S_BLOCKBYTES) mod 2 ^ 64 \<and>
            blake2s_update e S inp =
              blake2s_update e S2 (drop (2 * BLAKE2S_BLOCKBYTES - buflen S) inp))) \<and>
     (buflen S + length inp \<le> 2 * BLAKE2S_BLOCKBYTES \<longrightarrow>
        blake2s_update e S inp =
          S\<lparr>buf := take (buflen S) (buf S) @ inp @ drop (buflen S + length inp) (buf S),
            buflen := buflen S + length inp\<rparr>) \<and>
     blake2s_update e S [] = S"
proof (intro conjI impI)
  assume big: "2 * BLAKE2S_BLOCKBYTES < buflen S + length inp"
  then have fill: "2 * BLAKE2S_BLOCKBYTES - buflen S < length inp"
    using assms unfolding valid_state_def by arith
  have c: "counter64 (blake2s_increment_counter
             (S\<lparr>buf := take (buflen S) (buf S) @ take (2 * BLAKE2S_BLOCKBYTES - buflen S) inp,
                buflen := 2 * BLAKE2S_BLOCKBYTES\<rparr>) 64) =
           (counter64 S + BLAKE2S_BLOCKBYTES) mod 2 ^ 64"
    using assms by (subst counter64_increment) (simp_all add: valid_state_def counter64_def)
  show "let B = take (buflen S) (buf S) @ take (2 * BLAKE2S_BLOCKBYTES - buflen S) inp;
            S1 = blake2s_increment_counter (S\<lparr>buf := B, buflen := 2 * BLAKE2S_BLOCKBYTES\<rparr>) 64;
            S2 = (blake2s_compress e S1 (take BLAKE2S_BLOCKBYTES B))
                   \<lparr>buf := drop BLAKE2S_BLOCKBYTES B @ drop BLAKE2S_BLOCKBYTES B,
                    buflen := BLAKE2S_BLOCKBYTES\<rparr>
        in length B = 2 * BLAKE2S_BLOCKBYTES \<and>
           counter64 S1 = (counter64 S + BLAKE2S_BLOCKBYTES) mod 2 ^ 64 \<and>
           blake2s_update e S inp =
             blake2s_update e S2 (drop (2 * BLAKE2S_BLOCKBYTES - buflen S) inp)"
    unfolding Let_def
    using update_block_explicit(1) [OF assms, where inp = inp and e = e]
      update_block_explicit(2) [OF assms, where inp = inp] fill c
    by (simp add: blake2s_update_full)
next
  assume "buflen S + length inp \<le> 2 * BLAKE2S_BLOCKBYTES"
  then show "blake2s_update e S inp =
      S\<lparr>buf := take (buflen S) (buf S) @ inp @ drop (buflen S + length inp) (buf S),
        buflen := buflen S + length inp\<rparr>"
    by (cases "inp = []")
      (simp_all add: blake2s_update_Nil blake2s_update_fit update_append_def memcpy_def)
next
  show "blake2s_update e S [] = S"
    by (rule blake2s_update_Nil)
qed

theorem update_buffering_witness:
  "valid_state (blake2s_init_param le32_host (sequential_param le32_host 32 0)) \<and>
   blake2s_update le32_host (blake2s_init_param le32_host (sequential_param le32_host 32 0))
       [0x61, 0x62, 0x63] =
     (blake2s_init_param le32_host (sequential_param le32_host 32 0))
       \<lparr>buf := [0x61, 0x62, 0x63] @ replicate 125 0, buflen := 3\<rparr> \<and>
   blake2s_update le32_host (blake2s_init_param le32_host (sequential_param le32_host 32 0))
       (replicate 129 7) =
     blake2s_update le32_host
       ((blake2s_compress le32_host
           (blake2s_increment_counter
              ((blake2s_init_param le32_host (sequential_param le32_host 32 0))
                 \<lparr>buf := replicate 128 7, buflen := 128\<rparr>) 64)
           (replicate 64 7))
         \<lparr>buf := replicate 128 7, buflen := 64\<rparr>)
       [7]"
proof -
  let ?S = "blake2s_init_param le32_host (sequential_param le32_host 32 0)"
  have v: "valid_state ?S"
    by (rule init_param_valid)
  have a: "blake2s_update le32_host ?S [0x61, 0x62, 0x63] =
      ?S\<lparr>buf := [0x61, 0x62, 0x63] @ replicate 125 0, buflen := 3\<rparr>"
    using update_buffering [OF v, of "[0x61, 0x62, 0x63]" le32_host]
    by (simp add: list_eval)
  have b: "blake2s_update le32_host ?S (replicate 129 7) =
     blake2s_update le32_host
       ((blake2s_compress le32_host
           (blake2s_increment_counter (?S\<lparr>buf := replicate 128 7, buflen := 128\<rparr>) 64)
           (replicate 64 7))
         \<lparr>buf := replicate 128 7, buflen := 64\<rparr>)
       [7]"
    using update_buffering [OF v, of "replicate 129 7" le32_host]
    by (simp add: Let_def min_def flip: replicate_add)
  show ?thesis
    using v a b by blast
qed

section \<open>Keyed initialisation\<close>

text \<open>
  C10. After a successful \<open>blake2s_init_key\<close> (with at least \<open>keylen\<close> key bytes at the
  key pointer) nothing has been compressed: the chaining words are those of
  \<open>blake2s_init_param\<close>, the counter is zero, and \<open>buflen\<close> is 64; the first 64 bytes of
  \<open>buf\<close> are the key followed by zeros. Zeroing the 64-byte stack block leaves
  the state, and so the key in it, as it is.
\<close>

theorem init_key_keeps_key_in_buffer:
  assumes "blake2s_init_key e outlen (Some key) keylen = Inr S" "unat keylen \<le> length key"
  shows "h S = h (blake2s_init_param e (sequential_param e outlen keylen)) \<and>
         t S = [0, 0] \<and> counter64 S = 0 \<and> buflen S = BLAKE2S_BLOCKBYTES \<and>
         take (unat keylen) (buf S) = take (unat keylen) key \<and>
         take BLAKE2S_BLOCKBYTES (buf S) =
           take (unat keylen) key @ replicate (BLAKE2S_BLOCKBYTES - unat keylen) 0 \<and>
         secure_zero_memory (take BLAKE2S_BLOCKBYTES (buf S)) BLAKE2S_BLOCKBYTES =
           replicate BLAKE2S_BLOCKBYTES 0"
proof -
  let ?S0 = "blake2s_init_param e (sequential_param e outlen keylen)"
  let ?block = "memcpy (replicate BLAKE2S_BLOCKBYTES 0) 0 key (unat keylen)"
  from assms(1) have k: "unat keylen \<le> BLAKE2S_KEYBYTES" and S: "S = blake2s_update e ?S0 ?block"
    by (auto simp add: blake2s_init_key_def Let_def split: if_splits)
  have b: "?block = take (unat keylen) key @ replicate (BLAKE2S_BLOCKBYTES - unat keylen) 0"
    by (simp add: memcpy_def)
  have l: "length ?block = BLAKE2S_BLOCKBYTES"
    using k assms(2) unfolding b by simp
  then have ne: "?block \<noteq> []"
    by auto
  have u: "S = update_append ?S0 ?block"
    unfolding S using l ne by (subst blake2s_update_fit) simp_all
  have g: "memcpy (replicate (2 * BLAKE2S_BLOCKBYTES) 0) 0 blk (length blk) =
           blk @ replicate BLAKE2S_BLOCKBYTES 0"
    if "length blk = BLAKE2S_BLOCKBYTES" for blk :: "u8 list"
    using that by (simp add: memcpy_def)
  have buf: "buf S = ?block @ replicate BLAKE2S_BLOCKBYTES 0"
    unfolding u using g [OF l] by simp
  have t64: "take BLAKE2S_BLOCKBYTES (buf S) = ?block"
    unfolding buf using l by simp
  have tk: "take (unat keylen) (buf S) = take (unat keylen) key"
    unfolding buf b using k assms(2) by simp
  have z: "secure_zero_memory (take BLAKE2S_BLOCKBYTES (buf S)) BLAKE2S_BLOCKBYTES =
      replicate BLAKE2S_BLOCKBYTES 0"
    unfolding t64 using l by (simp add: secure_zero_memory_def)
  have hs: "h S = h ?S0" and ts: "t S = [0, 0]" and bl: "buflen S = BLAKE2S_BLOCKBYTES"
    unfolding u using l by simp_all
  have c: "counter64 S = 0"
    by (simp add: counter64_def ts)
  show ?thesis
    using hs ts c bl tk t64 [unfolded b] z by (intro conjI)
qed

theorem init_key_keeps_key_in_buffer_witness:
  "unat (3 :: u8) \<le> length [1, 2, 3 :: u8] \<and>
   buflen \<lparr>h = [0x6B08E547, 0xBB67AE85, 0x3C6EF372, 0xA54FF53A,
              0x510E527F, 0x9B05688C, 0x1F83D9AB, 0x5BE0CD19 :: u32],
          t = [0, 0], f = [0, 0], buf = 1 # 2 # 3 # replicate 125 0, buflen = 64,
          last_node = 0 :: u8\<rparr> = 64 \<and>
   take 64 (1 # 2 # 3 # replicate 125 (0 :: u8)) = take (unat (3 :: u8)) [1, 2, 3] @ replicate (64 - unat (3 :: u8)) 0"
  using init_key_keeps_key_in_buffer [OF init_key_LE_32_123 [OF hosts(1)]]
  by simp

section \<open>What finalisation does\<close>

lemma all_ones: "(NOT 0 :: u32) = 0xFFFFFFFF"
  by (simp add: W_0 W_not W_numeral red32_eval)

lemma set_lastblock_fields [simp]:
  "h (blake2s_set_lastblock e S) = h S" "t (blake2s_set_lastblock e S) = t S"
  "buf (blake2s_set_lastblock e S) = buf S" "buflen (blake2s_set_lastblock e S) = buflen S"
  "last_node (blake2s_set_lastblock e S) = last_node S"
  "f (blake2s_set_lastblock e S) =
     (if last_node S \<noteq> 0 then (f S)[1 := not_0U e] else f S)[0 := not_0U e]"
  by (simp_all add: blake2s_set_lastblock_def blake2s_set_lastnode_def Let_def)

lemma serialise_map:
  assumes "length hs = 8"
  shows "concat (map (\<lambda>i. store32 e (hs ! i)) [0..<8]) = concat (map (store32 e) hs)"
proof -
  have "map (store32 e) hs = map (store32 e) (map ((!) hs) [0..<length hs])"
    by (simp only: map_nth)
  also have "\<dots> = map (\<lambda>i. store32 e (hs ! i)) [0..<8]"
    unfolding assms by (simp only: map_map comp_def)
  finally show ?thesis by simp
qed

lemma counter64_fields [simp]:
  "counter64 (S\<lparr>buf := b\<rparr>) = counter64 S" "counter64 (S\<lparr>buflen := n\<rparr>) = counter64 S"
  "counter64 (S\<lparr>f := fs\<rparr>) = counter64 S" "counter64 (S\<lparr>last_node := l\<rparr>) = counter64 S"
  "counter64 (blake2s_compress e S blk) = counter64 S"
  by (simp_all add: counter64_def)

lemma update_last_node:
  "valid_state S \<Longrightarrow> last_node (blake2s_update e S inp) = last_node S"
proof (induction "129 * length inp + buflen S" arbitrary: S inp rule: less_induct)
  case less
  show ?case
  proof (cases "2 * BLAKE2S_BLOCKBYTES - buflen S < length inp")
    case True
    let ?S = "update_block e S inp" and ?r = "drop (2 * BLAKE2S_BLOCKBYTES - buflen S) inp"
    have v: "valid_state ?S" "buflen ?S = BLAKE2S_BLOCKBYTES"
      using less.prems True by (simp_all add: update_block_valid)
    have "129 * length ?r + buflen ?S < 129 * length inp + buflen S"
      using True v(2) less.prems by (auto simp add: valid_state_def)
    then have "last_node (blake2s_update e ?S ?r) = last_node ?S"
      using v(1) by (rule less.hyps)
    then show ?thesis
      using True by (simp add: blake2s_update_full update_block_def)
  next
    case False
    then show ?thesis
      by (cases "inp = []") (simp_all add: blake2s_update_Nil blake2s_update_fit)
  qed
qed

text \<open>
  C7 (as amended). On a host whose \<open>unsigned int\<close> has at least 32 bits, on a valid
  state and with \<open>outlen \<le> 32\<close>, \<open>blake2s_final\<close> does exactly this: if \<open>buflen\<close>
  exceeds 64 it adds 64 to the counter, compresses the first 64 bytes of the buffer and
  moves the remainder to the front (\<open>S1\<close>); it then adds the remaining \<open>buflen\<close> to the
  counter, so that the counter has grown by the \<open>buflen\<close> it started with; it sets
  \<open>f[0]\<close> to all ones (\<open>f[1]\<close> only if \<open>last_node\<close> is set, which the initialisation
  clears and no update changes), pads with zeros (\<open>S2\<close>), compresses the remainder
  padded to 64 bytes (\<open>S3\<close>), serialises the eight chaining words with \<open>store32\<close>,
  little-endian on a little-endian host, into 32 bytes, and returns the first \<open>outlen\<close>
  of these bytes.
\<close>

theorem final_steps:
  assumes "valid_state S"
    and "unat outlen \<le> BLAKE2S_OUTBYTES"
    and "32 \<le> uint_bits e"
  shows
    "(let S1 = (if BLAKE2S_BLOCKBYTES < buflen S then
                  (blake2s_compress e (blake2s_increment_counter S 64)
                     (take BLAKE2S_BLOCKBYTES (buf S)))
                    \<lparr>buf := take (buflen S - BLAKE2S_BLOCKBYTES) (drop BLAKE2S_BLOCKBYTES (buf S)) @
                            drop (buflen S - BLAKE2S_BLOCKBYTES) (buf S),
                     buflen := buflen S - BLAKE2S_BLOCKBYTES\<rparr>
                else S);
          S2 = (blake2s_increment_counter S1 (word_of_nat (buflen S1)))
                 \<lparr>f := (if last_node S \<noteq> 0 then (f S)[1 := NOT 0] else f S)[0 := NOT 0],
                  buf := take (buflen S1) (buf S1) @
                         replicate (2 * BLAKE2S_BLOCKBYTES - buflen S1) 0\<rparr>;
          S3 = blake2s_compress e S2
                 (take (buflen S1) (buf S1) @ replicate (BLAKE2S_BLOCKBYTES - buflen S1) 0);
          digest = concat (map (store32 (endian e)) (h S3))
      in blake2s_final e S outlen = (S3, take (unat outlen) digest) \<and>
         length digest = BLAKE2S_OUTBYTES \<and>
         length (snd (blake2s_final e S outlen)) = unat outlen \<and>
         counter64 S2 = (counter64 S + buflen S) mod 2 ^ 64) \<and>
     store32 LittleEndian w =
       [ucast w, ucast (drop_bit 8 w), ucast (drop_bit 16 w), ucast (drop_bit 24 w)] \<and>
     last_node (blake2s_init_param e P) = 0 \<and>
     last_node (blake2s_update e S inp) = last_node S"
proof -
  define S1 where "S1 =
    (if BLAKE2S_BLOCKBYTES < buflen S then
       (blake2s_compress e (blake2s_increment_counter S 64) (take BLAKE2S_BLOCKBYTES (buf S)))
         \<lparr>buf := take (buflen S - BLAKE2S_BLOCKBYTES) (drop BLAKE2S_BLOCKBYTES (buf S)) @
                 drop (buflen S - BLAKE2S_BLOCKBYTES) (buf S),
          buflen := buflen S - BLAKE2S_BLOCKBYTES\<rparr>
     else S)"
  define P' where "P' = take (buflen S1) (buf S1) @ replicate (2 * BLAKE2S_BLOCKBYTES - buflen S1) 0"
  define S2 where "S2 =
    (blake2s_increment_counter S1 (word_of_nat (buflen S1)))
      \<lparr>f := (if last_node S \<noteq> 0 then (f S)[1 := NOT 0] else f S)[0 := NOT 0], buf := P'\<rparr>"
  define S3 where "S3 = blake2s_compress e S2
    (take (buflen S1) (buf S1) @ replicate (BLAKE2S_BLOCKBYTES - buflen S1) 0)"
  define digest where "digest = concat (map (store32 (endian e)) (h S3))"
  have v: "length (buf S) = 2 * BLAKE2S_BLOCKBYTES" "buflen S \<le> 2 * BLAKE2S_BLOCKBYTES"
    "length (t S) = 2"
    using assms(1) by (simp_all add: valid_state_def)
  have ones: "not_0U e = NOT 0"
    using assms(3) by (rule not_0U_all_ones)
  have first: "(if BLAKE2S_BLOCKBYTES < buflen S then
        (let S = blake2s_increment_counter S (word_of_nat BLAKE2S_BLOCKBYTES);
             S = blake2s_compress e S (buf S);
             S = S\<lparr>buflen := buflen S - BLAKE2S_BLOCKBYTES\<rparr>
         in S\<lparr>buf := memcpy (buf S) 0 (drop BLAKE2S_BLOCKBYTES (buf S)) (buflen S)\<rparr>)
      else S) = S1"
    by (simp add: S1_def Let_def memcpy_def compress_take)
  have b1: "buflen S1 \<le> BLAKE2S_BLOCKBYTES" "length (buf S1) = 2 * BLAKE2S_BLOCKBYTES"
    "length (t S1) = 2" "f S1 = f S" "last_node S1 = last_node S"
    using v by (auto simp add: S1_def)
  have tk: "take (buflen S1) (buf S1) @ replicate (BLAKE2S_BLOCKBYTES - buflen S1) 0 =
            take BLAKE2S_BLOCKBYTES P'"
    using b1(1,2) by (simp add: P'_def min_def)
  have S3: "S3 = blake2s_compress e S2 (buf S2)"
    unfolding S3_def tk by (simp add: compress_take S2_def)
  have second: "(blake2s_set_lastblock e (blake2s_increment_counter S1 (word_of_nat (buflen S1))))
      \<lparr>buf := memset (buf S1) (buflen S1) 0 (2 * BLAKE2S_BLOCKBYTES - buflen S1)\<rparr> = S2"
    using b1 by (intro state_eqI) (simp_all add: S2_def P'_def memset_def ones)
  have len: "length (h S3) = 8"
    by (simp add: S3)
  have Pm: "memset (buf S1) (buflen S1) 0 (2 * BLAKE2S_BLOCKBYTES - buflen S1) = P'"
    using b1(1,2) by (simp add: P'_def memset_def)
  have S3m: "blake2s_compress e S2 (memset (buf S1) (buflen S1) 0 (2 * BLAKE2S_BLOCKBYTES - buflen S1)) = S3"
    unfolding S3 Pm by (simp add: S2_def)
  have fin: "blake2s_final e S outlen = (S3, take (unat outlen) digest)"
    unfolding blake2s_final_def first digest_def
    by (simp add: Let_def second [simplified] S3m [simplified] serialise_map [OF len])
  have dl: "length digest = BLAKE2S_OUTBYTES"
    unfolding digest_def serialise_map [OF len, symmetric] by (rule length_serialise)
  have ol: "length (snd (blake2s_final e S outlen)) = unat outlen"
    unfolding fin using dl assms(2) by simp
  have c1: "counter64 S1 = (if BLAKE2S_BLOCKBYTES < buflen S
        then (counter64 S + BLAKE2S_BLOCKBYTES) mod 2 ^ 64 else counter64 S)"
    using v(3) by (simp add: S1_def counter64_increment)
  have "counter64 S2 = (counter64 S1 + buflen S1) mod 2 ^ 64"
    using b1(1,3) by (simp add: S2_def counter64_increment unat_word_of_nat_small)
  also have "\<dots> = (counter64 S + buflen S) mod 2 ^ 64"
  proof (cases "BLAKE2S_BLOCKBYTES < buflen S")
    case True
    then have b: "buflen S1 = buflen S - BLAKE2S_BLOCKBYTES"
      by (simp add: S1_def)
    have "((counter64 S + BLAKE2S_BLOCKBYTES) mod 2 ^ 64 + (buflen S - BLAKE2S_BLOCKBYTES)) mod 2 ^ 64 =
          (counter64 S + BLAKE2S_BLOCKBYTES + (buflen S - BLAKE2S_BLOCKBYTES)) mod 2 ^ 64"
      by (rule mod_add_left_eq)
    moreover have "counter64 S + BLAKE2S_BLOCKBYTES + (buflen S - BLAKE2S_BLOCKBYTES) =
          counter64 S + buflen S"
      using True by simp
    ultimately show ?thesis
      using True c1 b by simp
  next
    case False
    then have "S1 = S" by (simp add: S1_def)
    then show ?thesis by simp
  qed
  finally have cnt: "counter64 S2 = (counter64 S + buflen S) mod 2 ^ 64" .
  have le: "store32 LittleEndian w =
      [ucast w, ucast (drop_bit 8 w), ucast (drop_bit 16 w), ucast (drop_bit 24 w)]"
    by (simp add: store32_def)
  have ln: "last_node (blake2s_init_param e P) = 0"
    "last_node (blake2s_update e S inp) = last_node S"
    using assms(1) by (simp_all add: update_last_node)
  show ?thesis
    using fin dl ol cnt le ln
    unfolding Let_def digest_def S3_def S2_def P'_def S1_def by blast
qed

lemma hosts_width: "32 \<le> uint_bits le32_host" "32 \<le> uint_bits be32_host"
  by simp_all

theorem final_steps_witness:
  "valid_state ((blake2s_init_param le32_host (sequential_param le32_host 32 0))) \<and>
   blake2s_final le32_host ((blake2s_init_param le32_host (sequential_param le32_host 32 0))) 32 =
     (let S3 = blake2s_compress le32_host
                 ((blake2s_increment_counter ((blake2s_init_param le32_host (sequential_param le32_host 32 0))) 0)
                    \<lparr>f := [NOT 0, 0], buf := replicate 128 0\<rparr>)
                 (replicate 64 0)
      in (S3, take 32 (concat (map (store32 LittleEndian) (h S3))))) \<and>
   valid_state ((blake2s_init_param le32_host (sequential_param le32_host 32 0))
        \<lparr>buf := replicate 100 7 @ replicate 28 0, buflen := 100, last_node := 1\<rparr>) \<and>
   BLAKE2S_BLOCKBYTES < buflen ((blake2s_init_param le32_host (sequential_param le32_host 32 0))
        \<lparr>buf := replicate 100 7 @ replicate 28 0, buflen := 100, last_node := 1\<rparr>) \<and>
   unat (32 :: u8) \<le> 32 \<and> 32 \<le> uint_bits le32_host \<and>
   blake2s_final le32_host ((blake2s_init_param le32_host (sequential_param le32_host 32 0))
        \<lparr>buf := replicate 100 7 @ replicate 28 0, buflen := 100, last_node := 1\<rparr>) 32 =
     (let S1 = (blake2s_compress le32_host (blake2s_increment_counter ((blake2s_init_param le32_host (sequential_param le32_host 32 0))
        \<lparr>buf := replicate 100 7 @ replicate 28 0, buflen := 100, last_node := 1\<rparr>) 64) (replicate 64 7))
                 \<lparr>buf := replicate 36 7 @ replicate 64 7 @ replicate 28 0, buflen := 36\<rparr>;
          S2 = (blake2s_increment_counter S1 36)
                 \<lparr>f := [NOT 0, NOT 0], buf := replicate 36 7 @ replicate 92 0\<rparr>;
          S3 = blake2s_compress le32_host S2 (replicate 36 7 @ replicate 28 0)
      in (S3, take 32 (concat (map (store32 LittleEndian) (h S3))))) \<and>
   length (snd (blake2s_final le32_host ((blake2s_init_param le32_host (sequential_param le32_host 32 0))
        \<lparr>buf := replicate 100 7 @ replicate 28 0, buflen := 100, last_node := 1\<rparr>) 32)) = 32"
proof -
  let ?I = "blake2s_init_param le32_host (sequential_param le32_host 32 0)"
  let ?S = "((blake2s_init_param le32_host (sequential_param le32_host 32 0))
        \<lparr>buf := replicate 100 7 @ replicate 28 0, buflen := 100, last_node := 1\<rparr>)"
  have v0: "valid_state ?I"
    by (rule init_param_valid)
  have v: "valid_state ?S"
    using v0 by (simp add: valid_state_def)
  have ol: "unat (32 :: u8) \<le> BLAKE2S_OUTBYTES"
    by simp
  have a: "blake2s_final le32_host ?I 32 =
     (let S3 = blake2s_compress le32_host
                 ((blake2s_increment_counter ?I 0)
                    \<lparr>f := [NOT 0, 0], buf := replicate 128 0\<rparr>)
                 (replicate 64 0)
      in (S3, take 32 (concat (map (store32 LittleEndian) (h S3)))))"
    using final_steps [OF v0 ol hosts_width(1), THEN conjunct1]
    by (simp add: Let_def)
  have b: "blake2s_final le32_host ?S 32 =
     (let S1 = (blake2s_compress le32_host (blake2s_increment_counter ?S 64) (replicate 64 7))
                 \<lparr>buf := replicate 36 7 @ replicate 64 7 @ replicate 28 0, buflen := 36\<rparr>;
          S2 = (blake2s_increment_counter S1 36)
                 \<lparr>f := [NOT 0, NOT 0], buf := replicate 36 7 @ replicate 92 0\<rparr>;
          S3 = blake2s_compress le32_host S2 (replicate 36 7 @ replicate 28 0)
      in (S3, take 32 (concat (map (store32 LittleEndian) (h S3)))))"
    using final_steps [OF v ol hosts_width(1), THEN conjunct1]
    by (simp add: Let_def)
  have c: "length (snd (blake2s_final le32_host ?S 32)) = 32"
    using final_steps [OF v ol hosts_width(1), THEN conjunct1]
    by (simp add: Let_def)
  show ?thesis
    using v0 a v b c by simp
qed

lemma init_BE_32:
  assumes "endian e = BigEndian"
  shows "blake2s_init e 32 =
     Inr \<lparr>h = [0x4A09E766, 0xBB67AE85, 0x3C6EF372, 0xA54FF53A,
              0x510E527F, 0x9B05688C, 0x1F83D9AB, 0x5BE0CD19],
          t = [0, 0], f = [0, 0], buf = replicate 128 0, buflen = 0, last_node = 0\<rparr>"
  using assms
  by (simp add: init_eval word_eval list_eval cong: let_weak_cong)

lemma final_empty_BE_32:
  assumes "endian e = BigEndian"
    and "32 \<le> uint_bits e"
  shows "blake2s_final e
     \<lparr>h = [0x4A09E766, 0xBB67AE85, 0x3C6EF372, 0xA54FF53A,
           0x510E527F, 0x9B05688C, 0x1F83D9AB, 0x5BE0CD19],
      t = [0, 0], f = [0, 0], buf = replicate 128 0, buflen = 0, last_node = 0\<rparr> 32 =
   (\<lparr>h = [0x0E1DCB5B, 0xEFABA36C, 0x9A60A39A, 0x423D1364,
           0x8453365D, 0x08E00DA7, 0x55361E06, 0xEF55E7CD],
      t = [0, 0], f = [0xFFFFFFFF, 0], buf = replicate 128 0, buflen = 0, last_node = 0\<rparr>,
    [0x0e, 0x1d, 0xcb, 0x5b, 0xef, 0xab, 0xa3, 0x6c, 0x9a, 0x60, 0xa3, 0x9a, 0x42, 0x3d, 0x13, 0x64,
     0x84, 0x53, 0x36, 0x5d, 0x08, 0xe0, 0x0d, 0xa7, 0x55, 0x36, 0x1e, 0x06, 0xef, 0x55, 0xe7, 0xcd])"
  using assms
  by (simp add: final_eval compress_eval word_eval list_eval cong: let_weak_cong)

text \<open>
  The claim as stated, a little-endian serialisation whatever the host, fails on a
  big-endian host (here one with a 32-bit \<open>unsigned int\<close>): from the state that
  \<open>blake2s_init\<close> returns there, the digest bytes are the chaining words most
  significant byte first.
\<close>

theorem final_little_endian_counterexample:
  "blake2s_init be32_host 32 =
     Inr \<lparr>h = [0x4A09E766, 0xBB67AE85, 0x3C6EF372, 0xA54FF53A,
              0x510E527F, 0x9B05688C, 0x1F83D9AB, 0x5BE0CD19],
          t = [0, 0], f = [0, 0], buf = replicate 128 0, buflen = 0, last_node = 0\<rparr> \<and>
   snd (blake2s_final be32_host
     \<lparr>h = [0x4A09E766, 0xBB67AE85, 0x3C6EF372, 0xA54FF53A,
           0x510E527F, 0x9B05688C, 0x1F83D9AB, 0x5BE0CD19],
      t = [0, 0], f = [0, 0], buf = replicate 128 0, buflen = 0, last_node = 0\<rparr> 32) \<noteq>
   take 32 (concat (map (store32 LittleEndian) (h (fst (blake2s_final be32_host
     \<lparr>h = [0x4A09E766, 0xBB67AE85, 0x3C6EF372, 0xA54FF53A,
           0x510E527F, 0x9B05688C, 0x1F83D9AB, 0x5BE0CD19],
      t = [0, 0], f = [0, 0], buf = replicate 128 0, buflen = 0, last_node = 0\<rparr> 32)))))"
  unfolding init_BE_32 [OF hosts(3)] final_empty_BE_32 [OF hosts(3) hosts_width(2)]
  by (simp add: store32_def word_eval)

section \<open>The buffer invariant and the calls of the compression function\<close>

lemma blake2s_update_calls_full:
  "2 * BLAKE2S_BLOCKBYTES - buflen S < length inp \<Longrightarrow>
   blake2s_update_calls e S inp =
     (fst (blake2s_update_calls e (update_block e S inp) (drop (2 * BLAKE2S_BLOCKBYTES - buflen S) inp)),
      (blake2s_increment_counter (fill_buffer S inp) (word_of_nat BLAKE2S_BLOCKBYTES),
       buf (fill_buffer S inp)) #
      snd (blake2s_update_calls e (update_block e S inp) (drop (2 * BLAKE2S_BLOCKBYTES - buflen S) inp)))"
  by (subst blake2s_update_calls.simps)
    (auto simp add: update_block_def compress_shift_def fill_buffer_def Let_def)

lemma blake2s_update_calls_Nil: "blake2s_update_calls e S [] = (S, [])"
  by (simp add: blake2s_update_calls.simps)

lemma blake2s_update_calls_fit:
  "length inp \<le> 2 * BLAKE2S_BLOCKBYTES - buflen S \<Longrightarrow>
   blake2s_update_calls e S inp = (blake2s_update e S inp, [])"
proof (cases "inp = []")
  case True
  then show ?thesis by (simp add: blake2s_update_calls_Nil blake2s_update_Nil)
next
  case False
  assume "length inp \<le> 2 * BLAKE2S_BLOCKBYTES - buflen S"
  with False show ?thesis
    by (subst blake2s_update_calls.simps)
      (simp add: blake2s_update_fit update_append_def Let_def blake2s_update_calls_Nil)
qed

lemma update_calls_sound:
  "valid_state S \<Longrightarrow>
   fst (blake2s_update_calls e S inp) = blake2s_update e S inp \<and>
   (\<forall>c \<in> set (snd (blake2s_update_calls e S inp)).
      snd c = buf (fst c) \<and> valid_state (fst c) \<and> buflen (fst c) = 2 * BLAKE2S_BLOCKBYTES)"
proof (induction "129 * length inp + buflen S" arbitrary: S inp rule: less_induct)
  case less
  show ?case
  proof (cases "2 * BLAKE2S_BLOCKBYTES - buflen S < length inp")
    case True
    let ?S = "update_block e S inp" and ?r = "drop (2 * BLAKE2S_BLOCKBYTES - buflen S) inp"
    have v: "valid_state ?S" "buflen ?S = BLAKE2S_BLOCKBYTES"
      using less.prems True by (simp_all add: update_block_valid)
    have "129 * length ?r + buflen ?S < 129 * length inp + buflen S"
      using True v(2) less.prems by (auto simp add: valid_state_def)
    then have IH: "fst (blake2s_update_calls e ?S ?r) = blake2s_update e ?S ?r \<and>
        (\<forall>c \<in> set (snd (blake2s_update_calls e ?S ?r)).
           snd c = buf (fst c) \<and> valid_state (fst c) \<and> buflen (fst c) = 2 * BLAKE2S_BLOCKBYTES)"
      using v(1) by (rule less.hyps)
    have fb: "valid_state (fill_buffer S inp)" "buflen (fill_buffer S inp) = 2 * BLAKE2S_BLOCKBYTES"
      using less.prems True by (simp_all add: fill_buffer_valid del: fill_buffer_fields)
    have "valid_state (blake2s_increment_counter (fill_buffer S inp) (word_of_nat BLAKE2S_BLOCKBYTES))"
      using fb(1) by (simp add: valid_state_def del: fill_buffer_fields)
    then show ?thesis
      using True IH fb(2)
      by (simp add: blake2s_update_calls_full blake2s_update_full del: fill_buffer_fields)
  next
    case False
    then show ?thesis
      by (simp add: blake2s_update_calls_fit)
  qed
qed

lemma final_calls_fst: "fst (blake2s_final_calls e S outlen) = blake2s_final e S outlen"
  by (simp add: blake2s_final_calls_def blake2s_final_def Let_def split: prod.splits)

lemma final_calls_sound:
  assumes "valid_state S"
  shows "\<forall>c \<in> set (snd (blake2s_final_calls e S outlen)).
           snd c = buf (fst c) \<and> length (snd c) = 2 * BLAKE2S_BLOCKBYTES"
    and "snd (blake2s_final_calls e S outlen) \<noteq> []"
  using assms
  by (auto simp add: blake2s_final_calls_def Let_def valid_state_def memcpy_def memset_def
      split: prod.splits if_splits)

text \<open>
  C8. Starting from a valid state, after any sequence of updates the state is valid
  again, in particular \<open>buflen \<le> 128\<close>. From such a state, every call of the
  compression function that a further update or the finalisation makes gets the buffer
  itself as its block pointer (\<open>S->buf\<close>, all 128 bytes present) and depends on its
  first 64 bytes only; in an update the buffer is full (\<open>buflen = 128\<close>) at each call.
  The logged functions return what \<open>blake2s_update\<close> and \<open>blake2s_final\<close> return.
\<close>

theorem buffer_invariant_and_block_calls:
  assumes "valid_state S"
  shows
    "(let S' = foldl (blake2s_update e) S chunks in
        valid_state S' \<and> buflen S' \<le> 2 * BLAKE2S_BLOCKBYTES \<and>
        fst (blake2s_update_calls e S' inp) = blake2s_update e S' inp \<and>
        fst (blake2s_final_calls e S' outlen) = blake2s_final e S' outlen \<and>
        (\<forall>c \<in> set (snd (blake2s_update_calls e S' inp)) \<union> set (snd (blake2s_final_calls e S' outlen)).
           snd c = buf (fst c) \<and> length (snd c) = 2 * BLAKE2S_BLOCKBYTES \<and>
           blake2s_compress e (fst c) (snd c) =
             blake2s_compress e (fst c) (take BLAKE2S_BLOCKBYTES (snd c))) \<and>
        (\<forall>c \<in> set (snd (blake2s_update_calls e S' inp)).
           buflen (fst c) = 2 * BLAKE2S_BLOCKBYTES))"
proof -
  define S' where "S' = foldl (blake2s_update e) S chunks"
  have v: "valid_state S'"
    unfolding S'_def using assms by (simp add: foldl_update_concat blake2s_update_valid)
  then have bl: "buflen S' \<le> 2 * BLAKE2S_BLOCKBYTES"
    by (simp add: valid_state_def)
  note u = update_calls_sound [OF v, of e inp]
  note fc = final_calls_sound [OF v, of e outlen]
  have calls: "snd c = buf (fst c) \<and> length (snd c) = 2 * BLAKE2S_BLOCKBYTES \<and>
      blake2s_compress e (fst c) (snd c) = blake2s_compress e (fst c) (take BLAKE2S_BLOCKBYTES (snd c))"
    if "c \<in> set (snd (blake2s_update_calls e S' inp)) \<union> set (snd (blake2s_final_calls e S' outlen))"
    for c
    using that u fc(1) by (auto simp add: compress_take valid_state_def)
  show ?thesis
    unfolding Let_def S'_def [symmetric]
    using v bl u calls final_calls_fst [of e S' outlen] by blast
qed

theorem buffer_invariant_and_block_calls_witness:
  "valid_state (blake2s_init_param le32_host (sequential_param le32_host 32 0)) \<and>
   valid_state (foldl (blake2s_update le32_host)
     (blake2s_init_param le32_host (sequential_param le32_host 32 0))
     [replicate 100 1, [], replicate 100 2]) \<and>
   (\<exists>c. c \<in> set (snd (blake2s_final_calls le32_host
            (foldl (blake2s_update le32_host)
               (blake2s_init_param le32_host (sequential_param le32_host 32 0))
               [replicate 100 1, [], replicate 100 2]) 32)) \<and>
        snd c = buf (fst c) \<and> length (snd c) = 128)"
proof -
  let ?S = "blake2s_init_param le32_host (sequential_param le32_host 32 0)"
  let ?S' = "foldl (blake2s_update le32_host) ?S [replicate 100 1, [], replicate 100 2]"
  have v: "valid_state ?S"
    by (rule init_param_valid)
  note w = buffer_invariant_and_block_calls
    [OF v, of le32_host "[replicate 100 1, [], replicate 100 2]" "[]" 32, unfolded Let_def]
  from w have v': "valid_state ?S'"
    by blast
  obtain c where c: "c \<in> set (snd (blake2s_final_calls le32_host ?S' 32))"
    using final_calls_sound(2) [OF v', of le32_host 32]
    by (cases "snd (blake2s_final_calls le32_host ?S' 32)") auto
  with w have "snd c = buf (fst c) \<and> length (snd c) = 2 * BLAKE2S_BLOCKBYTES"
    by blast
  then have "snd c = buf (fst c) \<and> length (snd c) = 128"
    by auto
  with v v' c show ?thesis
    by blast
qed

end
